theory Spec2Isabelle
  imports Main
begin

section \<open>Python values and string primitives\<close>

text \<open>
  Text is a list of characters. A character stands for one code point in the range
  0..255, so \<open>length\<close> is Python's \<open>len\<close> on such text. Exceptions of the source are
  values of type \<open>error\<close>; a function that can raise returns \<open>error + 'a\<close>.
\<close>

datatype error = IndexError | TypeError | KeyError | AttributeError | OverflowError | BindError

text \<open>\<open>s.split(sep)\<close> for a one-character separator: never the empty list.\<close>

fun str_split :: "char \<Rightarrow> string \<Rightarrow> string list" where
  "str_split sep [] = [[]]"
| "str_split sep (c # cs) =
     (if c = sep then [] # str_split sep cs
      else (case str_split sep cs of
              [] \<Rightarrow> [[c]]
            | w # ws \<Rightarrow> (c # w) # ws))"

text \<open>\<open>sep.join(xs)\<close>.\<close>

fun str_join :: "string \<Rightarrow> string list \<Rightarrow> string" where
  "str_join sep [] = []"
| "str_join sep [x] = x"
| "str_join sep (x # y # ys) = x @ sep @ str_join sep (y # ys)"

text \<open>\<open>s.replace(old, new)\<close> for one-character \<open>old\<close> and \<open>new\<close>.\<close>

definition str_replace_char :: "char \<Rightarrow> char \<Rightarrow> string \<Rightarrow> string" where
  "str_replace_char old new s = map (\<lambda>c. if c = old then new else c) s"

text \<open>\<open>s.startswith(p)\<close>.\<close>

definition startswith :: "string \<Rightarrow> string \<Rightarrow> bool" where
  "startswith s p = (take (length p) s = p)"

text \<open>
  \<open>os.path.join(a, b)\<close> of \<open>posixpath\<close>: an absolute \<open>b\<close> replaces \<open>a\<close>; otherwise
  \<open>b\<close> is appended, after a slash unless \<open>a\<close> is empty or already ends with one.
\<close>

definition os_path_join :: "string \<Rightarrow> string \<Rightarrow> string" where
  "os_path_join a b =
     (if startswith b ''/'' then b
      else if a = [] \<or> last a = CHR ''/'' then a @ b
      else a @ ''/'' @ b)"

section \<open>PathCodec: \<open>backfill.py\<close>\<close>

text \<open>
  \<open>_build_path_segments(base, remaining_parts)\<close>. The directory test \<open>os.path.isdir\<close>
  is the parameter \<open>isdir\<close>; it returns a truth value for every string and never raises.
  \<open>try_segments\<close> is the \<open>for i in range(1, len(remaining_parts) + 1)\<close> loop, entered
  at \<open>i = 1\<close>; \<open>if result:\<close> is true for a result that is neither \<open>None\<close> nor the
  empty string.
\<close>

function build_path_segments :: "(string \<Rightarrow> bool) \<Rightarrow> string \<Rightarrow> string list \<Rightarrow> string option"
  and try_segments :: "(string \<Rightarrow> bool) \<Rightarrow> string \<Rightarrow> string list \<Rightarrow> nat \<Rightarrow> string option"
where
  "build_path_segments isdir base remaining_parts =
     (if remaining_parts = [] then (if isdir base then Some base else None)
      else try_segments isdir base remaining_parts 1)"
| "try_segments isdir base remaining_parts i =
     (if i < 1 \<or> length remaining_parts < i then None
      else if isdir (os_path_join base (str_join ''-'' (take i remaining_parts))) then
        (if i = length remaining_parts
         then Some (os_path_join base (str_join ''-'' (take i remaining_parts)))
         else (case build_path_segments isdir
                     (os_path_join base (str_join ''-'' (take i remaining_parts)))
                     (drop i remaining_parts) of
                 Some result \<Rightarrow>
                   if result \<noteq> [] then Some result
                   else try_segments isdir base remaining_parts (i + 1)
               | None \<Rightarrow> try_segments isdir base remaining_parts (i + 1)))
      else try_segments isdir base remaining_parts (i + 1))"
  by pat_completeness auto
termination
  by (relation "measures
        [\<lambda>x. case x of Inl (_, _, ps) \<Rightarrow> length ps | Inr (_, _, ps, _) \<Rightarrow> length ps,
         \<lambda>x. case x of Inl (_, _, ps) \<Rightarrow> length ps + 2 | Inr (_, _, ps, i) \<Rightarrow> length ps + 1 - i]")
     auto

text \<open>
  \<open>_resolve_folder_name_to_path(folder_name)\<close>. \<open>parts[0]\<close> raises \<open>IndexError\<close> on
  an empty list, and \<open>parts[1:]\<close> is the tail.
\<close>

definition resolve_folder_name_to_path :: "(string \<Rightarrow> bool) \<Rightarrow> string \<Rightarrow> error + string option" where
  "resolve_folder_name_to_path isdir folder_name =
     (let simple_path = ''/'' @ str_replace_char CHR ''-'' CHR ''/'' folder_name in
      if isdir simple_path then Inr (Some simple_path)
      else
        (let parts = str_split CHR ''-'' folder_name in
         case parts of
           [] \<Rightarrow> Inl IndexError
         | p0 # remaining \<Rightarrow>
             if p0 = ''Users'' \<and> length parts > 1 then
               (case build_path_segments isdir ''/Users'' remaining of
                  Some result \<Rightarrow> if result \<noteq> [] then Inr (Some result) else Inr None
                | None \<Rightarrow> Inr None)
             else Inr None))"

subsection \<open>The search order, stated independently of the code\<close>

text \<open>
  All ways of grouping a token list into segments, each segment the tokens joined by the
  separator. The list is in lexicographic order of the segment lengths, a shorter first
  segment first: for \<open>[a, b, c]\<close> it is \<open>[a, b, c]\<close>, \<open>[a, b-c]\<close>, \<open>[a-b, c]\<close>,
  \<open>[a-b-c]\<close>.
\<close>

function segmentations :: "string list \<Rightarrow> string list list" where
  "segmentations parts =
     (if parts = [] then [[]]
      else concat (map (\<lambda>i. map ((#) (str_join ''-'' (take i parts)))
                                 (segmentations (drop i parts)))
                       [1..<Suc (length parts)]))"
  by pat_completeness auto
termination
  by (relation "measure length") auto

text \<open>The segmentations whose first segment has at least \<open>i\<close> tokens.\<close>

definition candidates_from :: "string list \<Rightarrow> nat \<Rightarrow> string list list" where
  "candidates_from parts i =
     concat (map (\<lambda>i. map ((#) (str_join ''-'' (take i parts))) (segmentations (drop i parts)))
                 [i..<Suc (length parts)])"

text \<open>
  Descending from \<open>base\<close> through the segments one by one: the path reached when every
  directory on the way exists, \<open>None\<close> otherwise.
\<close>

fun walk :: "(string \<Rightarrow> bool) \<Rightarrow> string \<Rightarrow> string list \<Rightarrow> string option" where
  "walk isdir base [] = Some base"
| "walk isdir base (s # ss) =
     (if isdir (os_path_join base s) then walk isdir (os_path_join base s) ss else None)"

fun first_some :: "'a option list \<Rightarrow> 'a option" where
  "first_some [] = None"
| "first_some (None # xs) = first_some xs"
| "first_some (Some x # xs) = Some x"

text \<open>A directory tree in which \<open>/Users/jane/dev/my-app\<close> and its ancestors exist.\<close>

definition jane_tree :: "string \<Rightarrow> bool" where
  "jane_tree p = (p \<in> set [''/'', ''/Users'', ''/Users/jane'', ''/Users/jane/dev'',
                            ''/Users/jane/dev/my-app''])"

section \<open>Characters, words and substrings\<close>

text \<open>
  The character classes of Python on the code points 0..255: \<open>str.isspace\<close> (also the
  class \<open>\s\<close> of \<open>re\<close>), \<open>str.isalpha\<close> and \<open>str.lower\<close>, which on this range maps
  one character to one character.
\<close>

definition isspace :: "char \<Rightarrow> bool" where
  "isspace c = (let n = (of_char c :: nat) in
     (9 \<le> n \<and> n \<le> 13) \<or> (28 \<le> n \<and> n \<le> 32) \<or> n = 133 \<or> n = 160)"

definition isupper :: "char \<Rightarrow> bool" where
  "isupper c = (let n = (of_char c :: nat) in
     (65 \<le> n \<and> n \<le> 90) \<or> (192 \<le> n \<and> n \<le> 222 \<and> n \<noteq> 215))"

definition isalpha :: "char \<Rightarrow> bool" where
  "isalpha c = (let n = (of_char c :: nat) in
     (65 \<le> n \<and> n \<le> 90) \<or> (97 \<le> n \<and> n \<le> 122) \<or> n = 170 \<or> n = 181 \<or> n = 186 \<or>
     (192 \<le> n \<and> n \<le> 214) \<or> (216 \<le> n \<and> n \<le> 246) \<or> 248 \<le> n)"

text \<open>An upper-case letter and its lower-case form differ in the bit of value 32.\<close>

definition lower_char :: "char \<Rightarrow> char" where
  "lower_char c =
     (if isupper c
      then (case c of Char b0 b1 b2 b3 b4 b5 b6 b7 \<Rightarrow> Char b0 b1 b2 b3 b4 True b6 b7)
      else c)"

definition str_lower :: "string \<Rightarrow> string" where
  "str_lower s = map lower_char s"

text \<open>\<open>s.strip()\<close>.\<close>

definition str_strip :: "string \<Rightarrow> string" where
  "str_strip s = rev (dropWhile isspace (rev (dropWhile isspace s)))"

text \<open>\<open>sub in s\<close>.\<close>

fun contains :: "string \<Rightarrow> string \<Rightarrow> bool" where
  "contains [] sub = (sub = [])"
| "contains (c # cs) sub = (startswith (c # cs) sub \<or> contains cs sub)"

text \<open>\<open>s.split()\<close>: the maximal runs of characters that are not white space.\<close>

function str_words :: "string \<Rightarrow> string list" where
  "str_words [] = []"
| "str_words (c # cs) =
     (if isspace c then str_words cs
      else (c # takeWhile (\<lambda>x. \<not> isspace x) cs) # str_words (dropWhile (\<lambda>x. \<not> isspace x) cs))"
  by pat_completeness auto
termination
  by (relation "measure length") (auto simp: less_Suc_eq_le length_dropWhile_le)

text \<open>
  \<open>s.split(sep)\<close> for a separator of several characters, scanning from the left. Python
  raises \<open>ValueError\<close> for an empty separator; the source only splits at a fixed tag.
\<close>

function str_split_str :: "string \<Rightarrow> string \<Rightarrow> string list" where
  "str_split_str sep s =
     (if sep = [] then [s]
      else if s = [] then [[]]
      else if startswith s sep then [] # str_split_str sep (drop (length sep) s)
      else (case str_split_str sep (tl s) of
              [] \<Rightarrow> [[hd s]]
            | w # ws \<Rightarrow> (hd s # w) # ws))"
  by pat_completeness auto
termination
  by (relation "measure (\<lambda>(sep, s). length s)") auto

text \<open>\<open>str(n)\<close> for an integer.\<close>

fun str_nat :: "nat \<Rightarrow> string" where
  "str_nat n = (if n < 10 then [''0123456789'' ! n]
                else str_nat (n div 10) @ [''0123456789'' ! (n mod 10)])"

definition str_int :: "int \<Rightarrow> string" where
  "str_int n = (if n < 0 then ''-'' @ str_nat (nat (- n)) else str_nat (nat n))"

text \<open>The slice \<open>xs[:n]\<close>: a negative \<open>n\<close> counts from the end.\<close>

definition py_take :: "int \<Rightarrow> 'a list \<Rightarrow> 'a list" where
  "py_take n xs = (if 0 \<le> n then take (nat n) xs else take (length xs - nat (- n)) xs)"

section \<open>JSON values\<close>

text \<open>
  What \<open>json.loads\<close> returns. An object is the list of its items, looked up by key.
  Numbers are integers here: the source tests a number for being zero, compares the
  creation time of a chat, a count of milliseconds, with an integer, and stores a number
  as its decimal text.
\<close>

datatype json = JNull | JBool bool | JNum int | JStr string | JArr "json list"
  | JObj "(string \<times> json) list"

text \<open>The truth value of a Python value, as in \<open>if not role\<close>.\<close>

fun truthy :: "json \<Rightarrow> bool" where
  "truthy JNull = False"
| "truthy (JBool v) = v"
| "truthy (JNum n) = (n \<noteq> 0)"
| "truthy (JStr s) = (s \<noteq> [])"
| "truthy (JArr xs) = (xs \<noteq> [])"
| "truthy (JObj kvs) = (kvs \<noteq> [])"

text \<open>\<open>d.get(key, dflt)\<close>.\<close>

definition dict_get :: "(string \<times> json) list \<Rightarrow> string \<Rightarrow> json \<Rightarrow> json" where
  "dict_get kvs key dflt = (case map_of kvs key of Some v \<Rightarrow> v | None \<Rightarrow> dflt)"

text \<open>
  \<open>json.dumps\<close> with its default \<open>ensure_ascii\<close>: inside a string the quote and the
  backslash are escaped, and every character outside the printable ASCII range becomes a
  short escape or \<open>\u00XX\<close>.
\<close>

definition hex_digit :: "nat \<Rightarrow> char" where
  "hex_digit d = ''0123456789abcdef'' ! d"

definition escape_char :: "char \<Rightarrow> string" where
  "escape_char c =
     (let n = (of_char c :: nat) in
      if c = CHR 0x22 then [CHR 0x5C, CHR 0x22]
      else if c = CHR 0x5C then [CHR 0x5C, CHR 0x5C]
      else if n = 10 then [CHR 0x5C, CHR ''n'']
      else if n = 13 then [CHR 0x5C, CHR ''r'']
      else if n = 9 then [CHR 0x5C, CHR ''t'']
      else if n = 8 then [CHR 0x5C, CHR ''b'']
      else if n = 12 then [CHR 0x5C, CHR ''f'']
      else if n < 32 \<or> 126 < n
        then [CHR 0x5C, CHR ''u'', CHR ''0'', CHR ''0'', hex_digit (n div 16), hex_digit (n mod 16)]
      else [c])"

definition json_string :: "string \<Rightarrow> string" where
  "json_string s = [CHR 0x22] @ concat (map escape_char s) @ [CHR 0x22]"

fun json_dumps :: "json \<Rightarrow> string" where
  "json_dumps JNull = ''null''"
| "json_dumps (JBool v) = (if v then ''true'' else ''false'')"
| "json_dumps (JNum n) = str_int n"
| "json_dumps (JStr s) = json_string s"
| "json_dumps (JArr xs) = ''['' @ str_join '', '' (map json_dumps xs) @ '']''"
| "json_dumps (JObj kvs) =
     ''{'' @ str_join '', '' (map (\<lambda>(k, v). json_string k @ '': '' @ json_dumps v) kvs) @ ''}''"

text \<open>\<open>json.dumps(v, indent=2)\<close>, at nesting depth \<open>level\<close>.\<close>

definition newline_indent :: "nat \<Rightarrow> string" where
  "newline_indent level = CHR 0x0A # replicate (2 * level) CHR '' ''"

fun json_dumps_indent :: "nat \<Rightarrow> json \<Rightarrow> string" where
  "json_dumps_indent level (JArr xs) =
     (if xs = [] then ''[]''
      else ''['' @ newline_indent (level + 1)
           @ str_join ('','' @ newline_indent (level + 1)) (map (json_dumps_indent (level + 1)) xs)
           @ newline_indent level @ '']'')"
| "json_dumps_indent level (JObj kvs) =
     (if kvs = [] then ''{}''
      else ''{'' @ newline_indent (level + 1)
           @ str_join ('','' @ newline_indent (level + 1))
               (map (\<lambda>(k, v). json_string k @ '': '' @ json_dumps_indent (level + 1) v) kvs)
           @ newline_indent level @ ''}'')"
| "json_dumps_indent level v = json_dumps v"

section \<open>SummaryEngine: \<open>summarize.py\<close>\<close>

text \<open>
  A message is the dictionary \<open>{"role": role, "content": text}\<close> that
  \<open>_extract_messages\<close> builds: the role is the payload's value, the content a string.
\<close>

record message =
  role :: json
  content :: string

definition message_json :: "message \<Rightarrow> json" where
  "message_json msg = JObj [(''role'', role msg), (''content'', JStr (content msg))]"

text \<open>\<open>word_count(text)\<close>.\<close>

definition word_count :: "string \<Rightarrow> int" where
  "word_count text = int (length (str_words text))"

text \<open>\<open>sum(1 for c in s if c.isalpha())\<close>.\<close>

definition alpha_chars :: "string \<Rightarrow> nat" where
  "alpha_chars s = length (filter isalpha s)"

text \<open>\<open>truncate_to_words(text, max_words)\<close>.\<close>

definition truncate_to_words :: "string \<Rightarrow> int \<Rightarrow> string" where
  "truncate_to_words text max_words =
     (let words = str_words text in
      if int (length words) \<le> max_words then text
      else str_join '' '' (py_take max_words words) @ ''...'')"

text \<open>
  \<open>_trim_json_messages(messages, max_chars)\<close>: the loop carries \<open>result\<close> and the
  running total, and \<open>break\<close> ends it.
\<close>

fun trim_json_loop :: "int \<Rightarrow> message list \<Rightarrow> message list \<Rightarrow> int \<Rightarrow> message list" where
  "trim_json_loop max_chars [] result total_len = result"
| "trim_json_loop max_chars (msg # rest) result total_len =
     (let msg_str = json_dumps (message_json msg) in
      if total_len + int (length msg_str) > max_chars then
        (if content msg \<noteq> [] \<and> length (content msg) > 200
         then result @ [msg\<lparr>content := take 200 (content msg) @ ''... [trimmed]''\<rparr>]
         else result)
      else trim_json_loop max_chars rest (result @ [msg]) (total_len + int (length msg_str)))"

definition trim_json_messages :: "message list \<Rightarrow> int \<Rightarrow> message list" where
  "trim_json_messages messages max_chars = trim_json_loop max_chars messages [] 0"

text \<open>The truth value of an optional string: neither \<open>None\<close> nor empty.\<close>

definition str_truthy :: "string option \<Rightarrow> bool" where
  "str_truthy s = (case s of None \<Rightarrow> False | Some t \<Rightarrow> t \<noteq> [])"

text \<open>\<open>build_summary_prompt(messages, max_words, existing_summary)\<close>.\<close>

definition build_summary_prompt :: "message list \<Rightarrow> int \<Rightarrow> string option \<Rightarrow> string" where
  \<open>build_summary_prompt messages max_words existing_summary =
     (let trimmed = trim_json_messages messages 6000;
          messages_json = json_dumps_indent 0 (JArr (map message_json trimmed))
      in if str_truthy existing_summary then
           ''Update this chat summary with new messages. Max '' @ str_int max_words @ '' words.\<newline>''
           @ ''\<newline>''
           @ ''EXISTING SUMMARY:\<newline>''
           @ the existing_summary @ ''\<newline>''
           @ ''\<newline>''
           @ ''NEW MESSAGES:\<newline>''
           @ messages_json @ ''\<newline>''
           @ ''\<newline>''
           @ ''Create an updated summary incorporating the new content. Focus on tasks, technologies, and outcomes.\<newline>''
           @ ''Output ONLY the updated summary.''
         else
           ''Summarize this coding chat in '' @ str_int max_words @ '' words or less.\<newline>''
           @ ''\<newline>''
           @ ''FOCUS ON:\<newline>''
           @ ''- The specific task/problem the user wanted to solve\<newline>''
           @ ''- Technologies, frameworks, or files involved\<newline>''
           @ ''- Key outcomes or solutions implemented\<newline>''
           @ ''\<newline>''
           @ ''DO NOT INCLUDE:\<newline>''
           @ ''- Model names (gpt-5, claude, grok, etc.)\<newline>''
           @ ''- System setup information\<newline>''
           @ ''- Generic phrases like "user initiated a chat"\<newline>''
           @ ''\<newline>''
           @ ''If the conversation has no meaningful coding task, respond with just: "No actionable content"\<newline>''
           @ ''\<newline>''
           @ ''Output ONLY the summary, nothing else.\<newline>''
           @ ''\<newline>''
           @ ''Messages:\<newline>''
           @ messages_json)\<close>

text \<open>
  \<open>run_agent(prompt, model)\<close>. The external command is the parameter \<open>cursor\<close>: it
  gives the standard output of a run that exits with code 0, and \<open>None\<close> for any other
  exit code, a timeout or a missing program.
\<close>

type_synonym cursor_agent = "string \<Rightarrow> string \<Rightarrow> string option"

definition run_agent :: "cursor_agent \<Rightarrow> string \<Rightarrow> string \<Rightarrow> string option" where
  "run_agent cursor prompt model =
     (case cursor prompt model of Some stdout \<Rightarrow> Some (str_strip stdout) | None \<Rightarrow> None)"

text \<open>
  \<open>generate_summary(messages, model, max_words, existing_summary)\<close>. The second
  component lists the completion calls made, each with its prompt and model.
\<close>

definition generate_summary ::
  "cursor_agent \<Rightarrow> message list \<Rightarrow> string \<Rightarrow> int \<Rightarrow> string option
     \<Rightarrow> string option \<times> (string \<times> string) list" where
  "generate_summary cursor messages model max_words existing_summary =
     (if messages = [] then (None, [])
      else
        (let prompt = build_summary_prompt messages max_words existing_summary;
             summary = run_agent cursor prompt model
         in (if str_truthy summary \<and> word_count (the summary) > max_words
             then Some (truncate_to_words (the summary) max_words)
             else summary,
             [(prompt, model)])))"

text \<open>\<open>is_summary_actionable(summary)\<close>.\<close>

definition reject_phrases :: "string list" where
  "reject_phrases =
     [''no actionable content'', ''no specific coding task'', ''no meaningful'',
      ''user initiated a chat'', ''user started a chat'', ''testing'', ''just saying'',
      ''no specific task'', ''empty conversation'']"

definition is_summary_actionable :: "string option \<Rightarrow> bool" where
  "is_summary_actionable summary =
     (if \<not> str_truthy summary then False
      else if word_count (the summary) < 10 then False
      else if alpha_chars (the summary) < 50 then False
      else \<not> list_ex (\<lambda>phrase. contains (str_lower (the summary)) phrase) reject_phrases)"

text \<open>\<open>is_curlens_meta_chat(content)\<close>.\<close>

definition meta_indicators :: "string list" where
  "meta_indicators =
     [''Summarize this coding chat in'', ''Update this chat summary with new messages'',
      ''rank these chat summaries'', ''Output ONLY the summary'', ''No actionable content'']"

definition is_curlens_meta_chat :: "string \<Rightarrow> bool" where
  "is_curlens_meta_chat text =
     list_ex (\<lambda>indicator. contains (str_lower text) (str_lower indicator)) meta_indicators"

text \<open>
  \<open>has_meaningful_messages(messages)\<close>. Every content is a string, so the loop
  concatenates all of them.
\<close>

definition has_meaningful_messages :: "message list \<Rightarrow> bool" where
  "has_meaningful_messages messages =
     (if messages = [] then False
      else if length messages < 1 then False
      else
        (let total_content = concat (map content messages) in
         if is_curlens_meta_chat total_content then False
         else if length total_content < 100 then False
         else if alpha_chars total_content < 50 then False
         else True))"

section \<open>ContentExtractor: \<open>hooks/session_end.py\<close>\<close>

text \<open>\<open>_is_mostly_metadata(text)\<close>.\<close>

definition metadata_indicators :: "string list" where
  "metadata_indicators =
     [''You are gpt-'', ''You are claude-'', ''You are running as'',
      ''interactive CLI coding agent'', ''Plan mode is active'']"

definition is_mostly_metadata :: "string \<Rightarrow> bool" where
  "is_mostly_metadata text =
     (if length text > 500 then False
      else list_ex (\<lambda>indicator. contains (str_lower text) (str_lower indicator))
             metadata_indicators)"

text \<open>
  \<open>_extract_text_content(content)\<close>. \<open>text_parts\<close> is the loop that collects the
  \<open>text\<close> value of every item of type \<open>text\<close>; \<open>" ".join\<close> raises \<open>TypeError\<close>
  when one of the collected values is not a string.
\<close>

fun text_parts :: "json list \<Rightarrow> json list" where
  "text_parts [] = []"
| "text_parts (JObj item # items) =
     (let item_type = dict_get item ''type'' (JStr '''') in
      if item_type = JStr ''reasoning'' then text_parts items
      else if item_type = JStr ''text'' then dict_get item ''text'' (JStr '''') # text_parts items
      else text_parts items)"
| "text_parts (_ # items) = text_parts items"

fun the_strings :: "json list \<Rightarrow> error + string list" where
  "the_strings [] = Inr []"
| "the_strings (JStr s # vs) =
     (case the_strings vs of Inl e \<Rightarrow> Inl e | Inr ss \<Rightarrow> Inr (s # ss))"
| "the_strings (_ # vs) = Inl TypeError"

definition extract_text_content :: "json \<Rightarrow> error + string" where
  "extract_text_content cont =
     (case cont of
        JStr s \<Rightarrow> Inr s
      | JArr items \<Rightarrow>
          (case the_strings (text_parts items) of
             Inl e \<Rightarrow> Inl e
           | Inr ss \<Rightarrow> Inr (str_join '' '' ss))
      | _ \<Rightarrow> Inr [])"

text \<open>
  \<open>re.search(r'<user_query>\s*(.*?)\s*</user_query>', text, re.DOTALL)\<close>, giving
  \<open>group(1)\<close> of the match. \<open>search_user_query\<close> tries the start positions from the
  left. \<open>after_open\<close> is the first \<open>\s*\<close>: it takes white space as long as it can and
  gives a character back when the rest fails. \<open>lazy_group\<close> is \<open>(.*?)\<close>: it takes
  the fewest characters after which \<open>\s*</user_query>\<close> matches; the closing tag starts
  with a character that is not white space, so that tail matches exactly when the tag
  follows the white space.
\<close>

definition user_query_open :: string where
  "user_query_open = ''<user_query>''"

definition user_query_close :: string where
  "user_query_close = ''</user_query>''"

fun lazy_group :: "string \<Rightarrow> string option" where
  "lazy_group [] = None"
| "lazy_group (c # cs) =
     (if startswith (dropWhile isspace (c # cs)) user_query_close then Some []
      else map_option ((#) c) (lazy_group cs))"

fun after_open :: "string \<Rightarrow> string option" where
  "after_open [] = None"
| "after_open (c # cs) =
     (if isspace c
      then (case after_open cs of Some g \<Rightarrow> Some g | None \<Rightarrow> lazy_group (c # cs))
      else lazy_group (c # cs))"

fun search_user_query :: "string \<Rightarrow> string option" where
  "search_user_query [] = None"
| "search_user_query (c # cs) =
     (if startswith (c # cs) user_query_open
      then (case after_open (drop (length user_query_open) (c # cs)) of
              Some g \<Rightarrow> Some g
            | None \<Rightarrow> search_user_query cs)
      else search_user_query cs)"

text \<open>\<open>_extract_user_query(text)\<close>.\<close>

definition reminder_open :: string where
  "reminder_open = ''<system_reminder>''"

definition reminder_close :: string where
  "reminder_close = ''</system_reminder>''"

definition metadata_tags :: "string list" where
  "metadata_tags = [''<user_info>'', ''<rules>'', ''<system_reminder>'', ''<always_applied'']"

definition extract_user_query :: "string \<Rightarrow> string" where
  "extract_user_query text =
     (case search_user_query text of
        Some group1 \<Rightarrow> str_strip group1
      | None \<Rightarrow>
          if list_ex (\<lambda>tag. startswith (str_strip text) tag) metadata_tags then []
          else if contains text reminder_open then
            (let parts = str_split_str reminder_close text in
             if length parts > 1 then
               (let remaining = str_strip (last parts) in
                if remaining \<noteq> [] then remaining else [])
             else text)
          else text)"

text \<open>
  The body of the loop of \<open>_extract_messages\<close> for one blob payload: \<open>None\<close> where the
  source says \<open>continue\<close>, the appended message otherwise.
\<close>

definition extract_message :: "json \<Rightarrow> error + message option" where
  "extract_message blob_data =
     (case blob_data of
        JObj kvs \<Rightarrow>
          (let role = dict_get kvs ''role'' JNull;
               cont = dict_get kvs ''content'' JNull in
           if \<not> truthy role \<or> \<not> truthy cont then Inr None
           else if role = JStr ''system'' then Inr None
           else
             (case extract_text_content cont of
                Inl e \<Rightarrow> Inl e
              | Inr text \<Rightarrow>
                  if text = [] \<or> length (str_strip text) < 10 then Inr None
                  else
                    (if role = JStr ''user'' then
                       (let user_query = extract_user_query text in
                        if user_query = [] \<or> length (str_strip user_query) < 10 then Inr None
                        else if is_mostly_metadata user_query then Inr None
                        else Inr (Some \<lparr>role = role, content = take 2000 user_query\<rparr>))
                     else if is_mostly_metadata text then Inr None
                     else Inr (Some \<lparr>role = role, content = take 2000 text\<rparr>))))
      | _ \<Rightarrow> Inr None)"

text \<open>\<open>_extract_messages(blobs)\<close>: an exception in one blob ends the whole call.\<close>

fun extract_messages :: "(string \<times> json) list \<Rightarrow> error + message list" where
  "extract_messages [] = Inr []"
| "extract_messages ((blob_id, blob_data) # blobs) =
     (case extract_message blob_data of
        Inl e \<Rightarrow> Inl e
      | Inr m \<Rightarrow>
          (case extract_messages blobs of
             Inl e \<Rightarrow> Inl e
           | Inr messages \<Rightarrow> Inr (case m of Some msg \<Rightarrow> msg # messages | None \<Rightarrow> messages)))"

section \<open>Summary storage: \<open>db.py\<close>\<close>

text \<open>
  The table \<open>summaries\<close>, keyed by conversation id. The column \<open>blob_ids_json\<close> holds
  the list that \<open>get_summary_state\<close> parses back; \<open>now\<close> is the clock reading. The
  columns \<open>chat_name\<close> and \<open>chat_directory\<close> have the type TEXT and may be NULL.
\<close>

record summary_row =
  summary_text :: string
  blob_ids :: "string list"
  created_at :: int
  updated_at :: int
  chat_name :: "string option"
  chat_directory :: "string option"

type_synonym summary_db = "string \<rightharpoonup> summary_row"

text \<open>
  What \<open>sqlite3\<close> stores in a TEXT column for a parameter that is a value read from
  JSON: \<open>None\<close> is NULL, a string is itself, and an integer of at most 64 bits or a
  boolean is stored as its decimal text. A larger integer raises \<open>OverflowError\<close>; a
  list or a dictionary is refused as a parameter (\<open>BindError\<close>).
\<close>

fun bind_text :: "json \<Rightarrow> error + string option" where
  "bind_text JNull = Inr None"
| "bind_text (JStr s) = Inr (Some s)"
| "bind_text (JNum n) =
     (if - (2 ^ 63) \<le> n \<and> n < 2 ^ 63 then Inr (Some (str_int n)) else Inl OverflowError)"
| "bind_text (JBool v) = Inr (Some (if v then ''1'' else ''0''))"
| "bind_text (JArr xs) = Inl BindError"
| "bind_text (JObj kvs) = Inl BindError"

text \<open>
  \<open>upsert_summary\<close>: the parameters are bound in the order of the statement, the name
  before the directory, and a parameter that cannot be bound leaves the table as it was.
\<close>

definition upsert_summary ::
  "summary_db \<Rightarrow> int \<Rightarrow> string \<Rightarrow> string \<Rightarrow> string list \<Rightarrow> json \<Rightarrow> json
     \<Rightarrow> error + summary_db" where
  "upsert_summary db now conversation_id text ids name directory =
     (case bind_text name of
        Inl e \<Rightarrow> Inl e
      | Inr stored_name \<Rightarrow>
          (case bind_text directory of
             Inl e \<Rightarrow> Inl e
           | Inr stored_directory \<Rightarrow>
               Inr (db(conversation_id \<mapsto>
                      \<lparr>summary_text = text, blob_ids = ids,
                       created_at = (case db conversation_id of
                                       Some row \<Rightarrow> created_at row
                                     | None \<Rightarrow> now),
                       updated_at = now, chat_name = stored_name,
                       chat_directory = stored_directory\<rparr>))))"

definition get_summary_state :: "summary_db \<Rightarrow> string \<Rightarrow> summary_row option" where
  "get_summary_state db conversation_id = db conversation_id"

section \<open>Chat stores: \<open>chat_store.py\<close>\<close>

text \<open>
  A \<open>store.db\<close> as the hook reads it: the value that \<open>read_meta\<close> returns (\<open>JNull\<close>
  for \<open>None\<close>) and the list that \<open>list_json_blobs\<close> returns. The directory
  \<open>~/.cursor/chats\<close> is \<open>None\<close> when it does not exist and otherwise the list of its
  subdirectories in the order of \<open>iterdir\<close>; a subdirectory is the partial map from a
  conversation id to the store found at \<open>hash_dir / conversation_id / "store.db"\<close>.
\<close>

record chat_store =
  store_meta :: json
  store_blobs :: "(string \<times> json) list"

type_synonym chats = "(string \<rightharpoonup> chat_store) list option"

fun find_store :: "(string \<rightharpoonup> chat_store) list \<Rightarrow> string \<Rightarrow> chat_store option" where
  "find_store [] conversation_id = None"
| "find_store (hash_dir # hash_dirs) conversation_id =
     (case hash_dir conversation_id of
        Some store \<Rightarrow> Some store
      | None \<Rightarrow> find_store hash_dirs conversation_id)"

text \<open>
  \<open>find_chat_db_path\<close>. The hook passes it whatever value the payload holds under
  \<open>conversation_id\<close>; \<open>hash_dir / conversation_id\<close> raises \<open>TypeError\<close> for a value
  that is not a string, at the first subdirectory.
\<close>

definition find_chat_db_path :: "chats \<Rightarrow> json \<Rightarrow> error + chat_store option" where
  "find_chat_db_path root conversation_id =
     (case root of
        None \<Rightarrow> Inr None
      | Some hash_dirs \<Rightarrow>
          (case conversation_id of
             JStr cid \<Rightarrow> Inr (find_store hash_dirs cid)
           | _ \<Rightarrow> if hash_dirs = [] then Inr None else Inl TypeError))"

section \<open>IncrementalUpdater: \<open>main\<close> of \<open>hooks/session_end.py\<close>\<close>

text \<open>
  The fields of \<open>CurlensConfig\<close> that \<open>main\<close> reads, and what a run reads from its
  surroundings: the environment variable \<open>CURLENS_SKIP_HOOKS\<close>, the text on standard
  input, the chats directory and the clock reading taken by \<open>upsert_summary\<close>.
  \<open>json.loads\<close> is a parameter of \<open>main\<close>: a function that returns \<open>None\<close> where
  \<open>json.loads\<close> raises \<open>JSONDecodeError\<close>.
\<close>

record config =
  summary_model :: string
  summary_max_words :: int
  hooks_enabled :: bool

record hook_world =
  skip_hooks_env :: "string option"
  raw_input :: string
  chats_dir :: chats
  clock_ms :: int

type_synonym json_parser = "string \<Rightarrow> json option"

text \<open>
  The result of a run: the summary table after it, the completion calls made, and the
  exception that left \<open>main\<close> uncaught, if any. Log lines and the printed \<open>continue\<close>
  reply are left out.
\<close>

record hook_result =
  db_after :: summary_db
  completion_calls :: "(string \<times> string) list"
  raised :: "error option"

text \<open>
  \<open>workspace_roots[0] if workspace_roots else None\<close>. \<open>v[0]\<close> is the first item of a
  list and the first character of a string; a dictionary read from JSON has no key
  \<open>0\<close>, and no other value can be subscripted.
\<close>

fun subscript0 :: "json \<Rightarrow> error + json" where
  "subscript0 (JArr xs) = (case xs of [] \<Rightarrow> Inl IndexError | x # rest \<Rightarrow> Inr x)"
| "subscript0 (JStr s) = (case s of [] \<Rightarrow> Inl IndexError | c # rest \<Rightarrow> Inr (JStr [c]))"
| "subscript0 (JObj kvs) = Inl KeyError"
| "subscript0 v = Inl TypeError"

definition first_root :: "json \<Rightarrow> error + json" where
  "first_root workspace_roots =
     (if truthy workspace_roots then subscript0 workspace_roots else Inr JNull)"

text \<open>\<open>meta.get(key, dflt) if meta else dflt\<close>.\<close>

definition meta_get :: "json \<Rightarrow> string \<Rightarrow> json \<Rightarrow> error + json" where
  "meta_get meta key dflt =
     (if truthy meta
      then (case meta of JObj kvs \<Rightarrow> Inr (dict_get kvs key dflt) | _ \<Rightarrow> Inl AttributeError)
      else Inr dflt)"

text \<open>
  \<open>chat_name == "New Agent" and created_at >= JAN_2026_MS\<close>. The comparison is made
  only for that name; a boolean compares as 0 or 1, and a value that is no number raises
  \<open>TypeError\<close>.
\<close>

definition JAN_2026_MS :: int where
  "JAN_2026_MS = 1767205800000"

fun py_ge :: "json \<Rightarrow> int \<Rightarrow> error + bool" where
  "py_ge (JNum n) k = Inr (k \<le> n)"
| "py_ge (JBool v) k = Inr (k \<le> (if v then 1 else 0))"
| "py_ge v k = Inl TypeError"

definition new_agent_chat :: "json \<Rightarrow> json \<Rightarrow> error + bool" where
  "new_agent_chat name created =
     (if name = JStr ''New Agent'' then py_ge created JAN_2026_MS else Inr False)"

text \<open>
  The conversation id as the key of the summary table. \<open>find_chat_db_path\<close> returns a
  store for a string only, so the id is one wherever \<open>main\<close> reads the table.
\<close>

fun the_str :: "json \<Rightarrow> string" where
  "the_str (JStr s) = s"
| "the_str v = []"

text \<open>
  \<open>main\<close> from the point where the blobs of the conversation have been read (lines 101
  to 164). The arguments \<open>name\<close> and \<open>directory\<close> are the local variables
  \<open>chat_name\<close> and \<open>chat_directory\<close>, \<open>now\<close> is the clock reading of
  \<open>upsert_summary\<close>.
\<close>

definition main_update ::
  "cursor_agent \<Rightarrow> config \<Rightarrow> summary_db \<Rightarrow> int \<Rightarrow> string \<Rightarrow> json \<Rightarrow> json
     \<Rightarrow> (string \<times> json) list \<Rightarrow> hook_result" where
  "main_update cursor cfg db now conversation_id name directory blobs =
     (let ids = map fst blobs;
          existing = get_summary_state db conversation_id;
          new_blob_ids = (case existing of
                            Some row \<Rightarrow> set ids - set (blob_ids row)
                          | None \<Rightarrow> {})
      in if existing \<noteq> None \<and> new_blob_ids = {}
         then \<lparr>db_after = db, completion_calls = [], raised = None\<rparr>
         else
           (let existing_summary = (case existing of
                                      Some row \<Rightarrow> Some (summary_text row)
                                    | None \<Rightarrow> None);
                extracted =
                  (if new_blob_ids \<noteq> {}
                   then extract_messages (filter (\<lambda>(bid, bdata). bid \<in> new_blob_ids) blobs)
                   else extract_messages blobs)
            in case extracted of
                 Inl e \<Rightarrow> \<lparr>db_after = db, completion_calls = [], raised = Some e\<rparr>
               | Inr messages \<Rightarrow>
                   if messages = []
                     then \<lparr>db_after = db, completion_calls = [], raised = None\<rparr>
                   else if \<not> has_meaningful_messages messages
                     then \<lparr>db_after = db, completion_calls = [], raised = None\<rparr>
                   else
                     (case generate_summary cursor messages (summary_model cfg)
                             (summary_max_words cfg) existing_summary of
                        (summary, calls) \<Rightarrow>
                          if \<not> is_summary_actionable summary
                          then \<lparr>db_after = db, completion_calls = calls, raised = None\<rparr>
                          else
                            (case upsert_summary db now conversation_id (the summary)
                                    ids name directory of
                               Inl e \<Rightarrow>
                                 \<lparr>db_after = db, completion_calls = calls, raised = Some e\<rparr>
                             | Inr db' \<Rightarrow>
                                 \<lparr>db_after = db', completion_calls = calls,
                                  raised = None\<rparr>))))"

text \<open>
  \<open>main\<close>, whole. Lines 45 to 99 end the run before any completion call or write when
  the hooks are skipped or disabled, when the input is blank or no JSON, when the payload
  names no conversation, when no store is found for it, and for a chat named
  \<open>New Agent\<close> that was created at or after the cut-off; a payload that is no
  dictionary, and the expressions modelled above, raise. The local variables
  \<open>chat_directory\<close>, \<open>chat_name\<close> and \<open>created_at\<close> are \<open>directory\<close>,
  \<open>name\<close> and \<open>created\<close> here.
\<close>

definition main ::
  "cursor_agent \<Rightarrow> json_parser \<Rightarrow> config \<Rightarrow> summary_db \<Rightarrow> hook_world \<Rightarrow> hook_result" where
  "main cursor json_loads cfg db w =
     (let unchanged = \<lparr>db_after = db, completion_calls = [], raised = None\<rparr>;
          failed = (\<lambda>e. \<lparr>db_after = db, completion_calls = [], raised = Some e\<rparr>)
      in
      if skip_hooks_env w = Some ''1'' then unchanged
      else if \<not> hooks_enabled cfg then unchanged
      else if str_strip (raw_input w) = [] then unchanged
      else
        (case json_loads (raw_input w) of
           None \<Rightarrow> unchanged
         | Some payload \<Rightarrow>
             (case payload of
                JObj kvs \<Rightarrow>
                  (let conversation_id = dict_get kvs ''conversation_id'' JNull;
                       workspace_roots = dict_get kvs ''workspace_roots'' (JArr [])
                   in
                   if \<not> truthy conversation_id then unchanged
                   else
                     (case first_root workspace_roots of
                        Inl e \<Rightarrow> failed e
                      | Inr directory \<Rightarrow>
                          (case find_chat_db_path (chats_dir w) conversation_id of
                             Inl e \<Rightarrow> failed e
                           | Inr None \<Rightarrow> unchanged
                           | Inr (Some store) \<Rightarrow>
                               (case meta_get (store_meta store) ''name'' (JStr ''Unnamed'') of
                                  Inl e \<Rightarrow> failed e
                                | Inr name \<Rightarrow>
                                    (case meta_get (store_meta store) ''createdAt'' (JNum 0) of
                                       Inl e \<Rightarrow> failed e
                                     | Inr created \<Rightarrow>
                                         (case new_agent_chat name created of
                                            Inl e \<Rightarrow> failed e
                                          | Inr True \<Rightarrow> unchanged
                                          | Inr False \<Rightarrow>
                                              main_update cursor cfg db (clock_ms w)
                                                (the_str conversation_id) name
                                                directory (store_blobs store)))))))
              | _ \<Rightarrow> failed AttributeError)))"

section \<open>Notions used to state the properties\<close>

text \<open>A word as \<open>split()\<close> yields it: not empty and free of white space.\<close>

definition plain_word :: "string \<Rightarrow> bool" where
  "plain_word w = (w \<noteq> [] \<and> (\<forall>c \<in> set w. \<not> isspace c))"

text \<open>The length of a message's serialization, and of a list of messages.\<close>

definition message_len :: "message \<Rightarrow> int" where
  "message_len msg = int (length (json_dumps (message_json msg)))"

definition serialized_len :: "message list \<Rightarrow> int" where
  "serialized_len msgs = sum_list (map message_len msgs)"

text \<open>A message with its content cut to 200 characters and the truncation marker.\<close>

definition shorten :: "message \<Rightarrow> message" where
  "shorten msg = msg\<lparr>content := take 200 (content msg) @ ''... [trimmed]''\<rparr>"

text \<open>The number of leading messages whose serializations fit the budget together.\<close>

fun fit_count :: "int \<Rightarrow> message list \<Rightarrow> nat" where
  "fit_count budget [] = 0"
| "fit_count budget (msg # rest) =
     (if message_len msg > budget then 0 else Suc (fit_count (budget - message_len msg) rest))"

text \<open>A blob whose payload is an object with the role \<open>system\<close>.\<close>

definition is_system_blob :: "json \<Rightarrow> bool" where
  "is_system_blob blob_data =
     (case blob_data of JObj kvs \<Rightarrow> dict_get kvs ''role'' JNull = JStr ''system'' | _ \<Rightarrow> False)"

text \<open>The delta: the blobs whose id the stored record does not cover, in store order.\<close>

definition delta_blobs :: "string list \<Rightarrow> (string \<times> json) list \<Rightarrow> (string \<times> json) list" where
  "delta_blobs covered blobs = filter (\<lambda>b. fst b \<notin> set covered) blobs"

text \<open>Removing white space at the left end, and at the right end.\<close>

definition lstrip :: "string \<Rightarrow> string" where
  "lstrip s = dropWhile isspace s"

definition rstrip :: "string \<Rightarrow> string" where
  "rstrip s = rev (dropWhile isspace (rev s))"

text \<open>
  The text holds a delimited user-query span: an opening tag and, somewhere after it, a
  closing tag.
\<close>

definition user_query_span :: "string \<Rightarrow> bool" where
  "user_query_span text =
     (\<exists>pre body post. text = pre @ user_query_open @ body @ user_query_close @ post)"

subsection \<open>Example data\<close>

definition twelve_words :: string where
  "twelve_words =
     ''Implemented incremental summary updates for chat sessions and fixed workspace path resolver''"

definition long_message :: "string \<Rightarrow> nat \<Rightarrow> message" where
  "long_message r n = \<lparr>role = JStr r, content = replicate n CHR ''a''\<rparr>"

definition overflow_example :: "message list" where
  "overflow_example =
     [long_message ''user'' 2000, long_message ''assistant'' 2000, long_message ''user'' 1900,
      \<lparr>role = JStr ''assistant'', content = ''Run the tests again''\<rparr>]"

definition trimmed_example :: "message list" where
  "trimmed_example =
     [long_message ''user'' 2000, long_message ''assistant'' 2000, long_message ''user'' 2000]"

definition login_summary :: string where
  "login_summary = ''Fixed a login bug in auth.py by correcting a password hashing mismatch.''"

definition login_row :: summary_row where
  "login_row = \<lparr>summary_text = login_summary, blob_ids = [''A'', ''B''], created_at = 100,
                 updated_at = 100, chat_name = Some ''Login fix'', chat_directory = None\<rparr>"

definition login_db :: summary_db where
  "login_db = Map.empty(''conv-1'' \<mapsto> login_row)"

definition blob_a :: json where
  "blob_a = JObj [(''role'', JStr ''user''),
                  (''content'', JStr ''<user_query>Fix the login bug in auth.py</user_query>'')]"

definition blob_b :: json where
  "blob_b = JObj [(''role'', JStr ''assistant''),
                  (''content'', JStr ''The stored hash used a different salt than the login check, so I aligned both code paths in auth.py and the login works again.'')]"

definition blob_c :: json where
  "blob_c = JObj [(''role'', JStr ''assistant''),
                  (''content'', JArr [JObj [(''type'', JStr ''reasoning''), (''text'', JStr ''thinking'')],
                                      JObj [(''type'', JStr ''text''), (''text'', JStr ''Added a regression check for the login flow and moved the salt handling into one helper so both code paths share it.'')]])]"

definition blob_sys :: json where
  "blob_sys = JObj [(''role'', JStr ''system''),
                    (''content'', JStr ''Please keep every answer short and cite the file you changed.'')]"

definition message_c :: message where
  "message_c = \<lparr>role = JStr ''assistant'', content = ''Added a regression check for the login flow and moved the salt handling into one helper so both code paths share it.''\<rparr>"

definition updated_summary :: string where
  "updated_summary = ''Fixed a login bug in auth.py by aligning the password hashing salt, then added a regression check and a shared salt helper.''"

definition fixed_cursor :: cursor_agent where
  "fixed_cursor prompt model = Some updated_summary"

definition default_config :: config where
  "default_config = \<lparr>summary_model = ''grok'', summary_max_words = 70, hooks_enabled = True\<rparr>"

text \<open>
  A hook payload, the input text that holds it, a parser that reads that text, and the
  surroundings of a run on it: no skip variable, two chat directories of which the second
  holds the store of the conversation, and a clock reading.
\<close>

definition hook_items :: "(string \<times> json) list" where
  "hook_items = [(''hook_event_name'', JStr ''afterFileEdit''),
                 (''conversation_id'', JStr ''conv-1''),
                 (''workspace_roots'', JArr [JStr ''/Users/jane/dev/my-app''])]"

definition hook_payload :: json where
  "hook_payload = JObj hook_items"

definition example_loads :: json_parser where
  "example_loads raw = (if raw = json_dumps hook_payload then Some hook_payload else None)"

definition example_world :: "json \<Rightarrow> (string \<times> json) list \<Rightarrow> hook_world" where
  "example_world meta blobs =
     \<lparr>skip_hooks_env = None, raw_input = json_dumps hook_payload,
      chats_dir = Some [Map.empty,
                        Map.empty(''conv-1'' \<mapsto> \<lparr>store_meta = meta, store_blobs = blobs\<rparr>)],
      clock_ms = 200\<rparr>"

definition login_meta :: json where
  "login_meta = JObj [(''name'', JStr ''Login fix''), (''createdAt'', JNum 1767300000000)]"



definition tagged_text :: string where
  "tagged_text = ''<user_info>OS: macOS</user_info><user_query>  Fix the login bug in auth.py </user_query>''"

definition reminder_text :: string where
  "reminder_text = ''Context: <system_reminder>Be brief.</system_reminder> Please rename the helper module''"

definition closing_only_text :: string where
  "closing_only_text = ''Ignore this </system_reminder> and rename the helper module''"

definition user_blob :: "string \<Rightarrow> json" where
  "user_blob s = JObj [(''role'', JStr ''user''), (''content'', JStr s)]"

section \<open>Proofs: PathCodec\<close>

declare build_path_segments.simps [simp del] try_segments.simps [simp del]
  segmentations.simps [simp del]

lemma str_split_not_Nil: "str_split sep s \<noteq> []"
  by (induction s) (auto split: list.splits)

lemma os_path_join_not_Nil: "a \<noteq> [] \<Longrightarrow> os_path_join a b \<noteq> []"
  by (auto simp: os_path_join_def startswith_def)

lemma os_path_join_absolute:
  "startswith a ''/'' \<Longrightarrow> startswith (os_path_join a b) ''/''"
  by (cases a) (auto simp: os_path_join_def startswith_def)

text \<open>
  Whatever the search returns is accepted by the directory test, is absolute when the base
  is, and is non-empty when the base is.
\<close>

lemma build_try_valid:
  "(build_path_segments isdir base ps = Some r \<longrightarrow>
      isdir r \<and> (startswith base ''/'' \<longrightarrow> startswith r ''/'') \<and> (base \<noteq> [] \<longrightarrow> r \<noteq> []))"
  "(try_segments isdir base ps i = Some r \<longrightarrow>
      isdir r \<and> (startswith base ''/'' \<longrightarrow> startswith r ''/'') \<and> (base \<noteq> [] \<longrightarrow> r \<noteq> []))"
proof (induction isdir base ps and isdir base ps i arbitrary: r and r
       rule: build_path_segments_try_segments.induct)
  case (1 isdir base remaining_parts)
  then show ?case
    by (subst build_path_segments.simps) (auto split: if_splits)
next
  case (2 isdir base remaining_parts i)
  show ?case
  proof
    assume eq: "try_segments isdir base remaining_parts i = Some r"
    let ?c = "os_path_join base (str_join ''-'' (take i remaining_parts))"
    have rng: "\<not> (i < 1 \<or> length remaining_parts < i)"
      using eq by (subst (asm) try_segments.simps) (auto split: if_splits)
    show "isdir r \<and> (startswith base ''/'' \<longrightarrow> startswith r ''/'') \<and> (base \<noteq> [] \<longrightarrow> r \<noteq> [])"
    proof (cases "isdir ?c")
      case False
      then have "try_segments isdir base remaining_parts (i + 1) = Some r"
        using eq rng by (subst (asm) try_segments.simps) (auto split: if_splits)
      then show ?thesis using "2.IH"(4)[OF rng False] by blast
    next
      case True
      show ?thesis
      proof (cases "i = length remaining_parts")
        case last: True
        then have "r = ?c"
          using eq rng True by (subst (asm) try_segments.simps) (auto split: if_splits)
        then show ?thesis
          using True by (auto simp: os_path_join_absolute os_path_join_not_Nil)
      next
        case notlast: False
        show ?thesis
        proof (cases "build_path_segments isdir ?c (drop i remaining_parts)")
          case None
          then have "try_segments isdir base remaining_parts (i + 1) = Some r"
            using eq rng True notlast by (subst (asm) try_segments.simps) (auto split: if_splits)
          then show ?thesis using "2.IH"(2)[OF rng True notlast None] by blast
        next
          case (Some res)
          show ?thesis
          proof (cases "res = []")
            case True
            then have "try_segments isdir base remaining_parts (i + 1) = Some r"
              using eq rng \<open>isdir ?c\<close> notlast Some
              by (subst (asm) try_segments.simps) (auto split: if_splits)
            then show ?thesis
              using "2.IH"(3)[OF rng \<open>isdir ?c\<close> notlast Some] True by blast
          next
            case False
            then have "r = res"
              using eq rng \<open>isdir ?c\<close> notlast Some
              by (subst (asm) try_segments.simps) (auto split: if_splits)
            then show ?thesis
              using "2.IH"(1)[OF rng \<open>isdir ?c\<close> notlast, of res] Some
              by (auto simp: os_path_join_absolute os_path_join_not_Nil)
          qed
        qed
      qed
    qed
  qed
qed

lemma first_some_append:
  "first_some (xs @ ys) = (case first_some xs of Some x \<Rightarrow> Some x | None \<Rightarrow> first_some ys)"
  by (induction xs rule: first_some.induct) auto

lemma first_some_all_None: "first_some (map (\<lambda>_. None) xs) = None"
  by (induction xs) auto

lemma first_some_walk_Cons:
  "first_some (map (walk isdir base) (map ((#) s) segs)) =
     (if isdir (os_path_join base s)
      then first_some (map (walk isdir (os_path_join base s)) segs) else None)"
proof -
  have "map (walk isdir base) (map ((#) s) segs) =
          (if isdir (os_path_join base s)
           then map (walk isdir (os_path_join base s)) segs else map (\<lambda>_. None) segs)"
    by simp
  then show ?thesis by (simp add: first_some_all_None del: map_map)
qed

lemma candidates_from_step:
  "i \<le> length parts \<Longrightarrow>
   candidates_from parts i =
     map ((#) (str_join ''-'' (take i parts))) (segmentations (drop i parts))
     @ candidates_from parts (Suc i)"
  by (simp add: candidates_from_def upt_conv_Cons)

lemma candidates_from_end: "length parts < i \<Longrightarrow> candidates_from parts i = []"
  by (simp add: candidates_from_def)

lemma segmentations_Nil: "segmentations [] = [[]]"
  by (simp add: segmentations.simps)

lemma segmentations_candidates:
  "parts \<noteq> [] \<Longrightarrow> segmentations parts = candidates_from parts 1"
  by (subst segmentations.simps) (simp add: candidates_from_def)

text \<open>
  The loop entered at length \<open>i\<close> returns the first segmentation, among those whose first
  segment has at least \<open>i\<close> tokens, along which every directory exists.
\<close>

lemma build_try_first:
  "base \<noteq> [] \<longrightarrow> ps \<noteq> [] \<longrightarrow>
     build_path_segments isdir base ps = first_some (map (walk isdir base) (segmentations ps))"
  "base \<noteq> [] \<longrightarrow> 1 \<le> i \<longrightarrow>
     try_segments isdir base ps i = first_some (map (walk isdir base) (candidates_from ps i))"
proof (induction isdir base ps and isdir base ps i
       rule: build_path_segments_try_segments.induct)
  case (1 isdir base remaining_parts)
  then show ?case
    by (subst build_path_segments.simps) (auto simp: segmentations_candidates)
next
  case (2 isdir base remaining_parts i)
  let ?c = "os_path_join base (str_join ''-'' (take i remaining_parts))"
  show ?case
  proof (intro impI)
    assume base: "base \<noteq> []" and i: "1 \<le> i"
    show "try_segments isdir base remaining_parts i =
            first_some (map (walk isdir base) (candidates_from remaining_parts i))"
    proof (cases "length remaining_parts < i")
      case True
      then show ?thesis
        by (subst try_segments.simps) (simp add: candidates_from_end)
    next
      case False
      then have rng: "\<not> (i < 1 \<or> length remaining_parts < i)" using i by simp
      have le: "i \<le> length remaining_parts" using False by simp
      have step: "first_some (map (walk isdir base) (candidates_from remaining_parts i)) =
          (case (if isdir ?c then first_some (map (walk isdir ?c) (segmentations (drop i remaining_parts))) else None) of
             Some x \<Rightarrow> Some x
           | None \<Rightarrow> first_some (map (walk isdir base) (candidates_from remaining_parts (Suc i))))"
        by (simp add: candidates_from_step[OF le] first_some_append first_some_walk_Cons
              del: map_map)
      show ?thesis
      proof (cases "isdir ?c")
        case nd: False
        have "try_segments isdir base remaining_parts i = try_segments isdir base remaining_parts (i + 1)"
          using rng nd by (subst try_segments.simps) simp
        then show ?thesis
          using "2.IH"(4)[OF rng nd] base step nd by simp
      next
        case d: True
        show ?thesis
        proof (cases "i = length remaining_parts")
          case last: True
          have "try_segments isdir base remaining_parts i = Some ?c"
            using rng d last by (subst try_segments.simps) simp
          then show ?thesis
            using step d last by (simp add: segmentations_Nil)
        next
          case notlast: False
          have cne: "?c \<noteq> []" using base by (rule os_path_join_not_Nil)
          have dne: "drop i remaining_parts \<noteq> []" using le notlast by simp
          have ih1: "build_path_segments isdir ?c (drop i remaining_parts) =
                     first_some (map (walk isdir ?c) (segmentations (drop i remaining_parts)))"
            using "2.IH"(1)[OF rng d notlast] cne dne by simp
          show ?thesis
          proof (cases "build_path_segments isdir ?c (drop i remaining_parts)")
            case None
            have "try_segments isdir base remaining_parts i = try_segments isdir base remaining_parts (i + 1)"
              using rng d notlast None by (subst try_segments.simps) simp
            moreover have "first_some (map (walk isdir ?c) (segmentations (drop i remaining_parts))) = None"
              using ih1 None by simp
            ultimately show ?thesis
              using "2.IH"(2)[OF rng d notlast None] base i d by (simp add: step)
          next
            case (Some res)
            have "res \<noteq> []" using build_try_valid(1)[of isdir ?c "drop i remaining_parts" res] Some cne by simp
            then have "try_segments isdir base remaining_parts i = Some res"
              using rng d notlast Some by (subst try_segments.simps) simp
            moreover have "first_some (map (walk isdir ?c) (segmentations (drop i remaining_parts))) = Some res"
              using ih1 Some by simp
            ultimately show ?thesis
              using d by (simp add: step)
          qed
        qed
      qed
    qed
  qed
qed

lemma resolve_jane:
  assumes "isdir ''/Users/jane''" "isdir ''/Users/jane/dev''" "isdir ''/Users/jane/dev/my-app''"
    and "\<not> isdir ''/Users/jane/dev/my/app''"
  shows "resolve_folder_name_to_path isdir ''Users-jane-dev-my-app'' =
           Inr (Some ''/Users/jane/dev/my-app'')"
  using assms
  by (simp add: resolve_folder_name_to_path_def str_replace_char_def
        build_path_segments.simps try_segments.simps os_path_join_def startswith_def)

text \<open>
  Claim C3. For every folder name and every directory test, decoding raises nothing
  (the result is never \<open>Inl\<close>): it is either \<open>None\<close> or a path that the directory test
  accepts and that is absolute (it starts with a slash).
\<close>

theorem resolve_folder_name_to_path_validated:
  "resolve_folder_name_to_path isdir folder_name = Inr None \<or>
   (\<exists>p. resolve_folder_name_to_path isdir folder_name = Inr (Some p) \<and>
        isdir p \<and> startswith p ''/'')"
proof -
  have a: "startswith ''/Users'' ''/''" by (simp add: startswith_def)
  show ?thesis
    using build_try_valid(1)[of isdir "''/Users''"] a str_split_not_Nil[of "CHR ''-''" folder_name]
    by (auto simp: resolve_folder_name_to_path_def Let_def startswith_def
             split: list.splits option.splits)
qed

theorem resolve_folder_name_to_path_validated_witness:
  "resolve_folder_name_to_path jane_tree ''Users-jane-code'' = Inr None \<or>
   (\<exists>p. resolve_folder_name_to_path jane_tree ''Users-jane-code'' = Inr (Some p) \<and>
        jane_tree p \<and> startswith p ''/'')"
  by (rule resolve_folder_name_to_path_validated)

text \<open>
  Claim C4. At each position the search tries the segment lengths 1, 2, 3, ... in this
  order, descends into the first candidate that is a directory and comes back for the next
  length when the descent fails: its result is the first segmentation, in the order
  shortest first segment first, along which every directory exists. In particular
  \<open>Users-jane-dev-my-app\<close> decodes to \<open>/Users/jane/dev/my-app\<close> whenever that directory
  and its ancestors below \<open>/Users\<close> exist and \<open>/Users/jane/dev/my/app\<close> does not.
\<close>

theorem build_path_segments_shortest_first:
  "(base \<noteq> [] \<and> parts \<noteq> [] \<longrightarrow>
      build_path_segments isdir base parts =
        first_some (map (walk isdir base) (segmentations parts))) \<and>
   (isdir ''/Users/jane'' \<and> isdir ''/Users/jane/dev'' \<and> isdir ''/Users/jane/dev/my-app'' \<and>
    \<not> isdir ''/Users/jane/dev/my/app'' \<longrightarrow>
      resolve_folder_name_to_path isdir ''Users-jane-dev-my-app'' =
        Inr (Some ''/Users/jane/dev/my-app''))"
  using build_try_first(1)[of base parts isdir] resolve_jane[of isdir] by blast

theorem build_path_segments_shortest_first_witness:
  "build_path_segments jane_tree ''/Users'' [''jane'', ''dev'', ''my'', ''app''] =
     first_some (map (walk jane_tree ''/Users'') (segmentations [''jane'', ''dev'', ''my'', ''app''])) \<and>
   resolve_folder_name_to_path jane_tree ''Users-jane-dev-my-app'' =
     Inr (Some ''/Users/jane/dev/my-app'')"
  using build_path_segments_shortest_first[of "''/Users''" "[''jane'', ''dev'', ''my'', ''app'']" jane_tree]
  by (simp add: jane_tree_def)

section \<open>Proofs: SummaryEngine\<close>

declare str_nat.simps [simp del]

subsection \<open>Substrings\<close>

lemma startswith_iff: "startswith s p \<longleftrightarrow> (\<exists>post. s = p @ post)"
proof
  assume "startswith s p"
  then have "s = p @ drop (length p) s"
    by (metis append_take_drop_id startswith_def)
  then show "\<exists>post. s = p @ post" ..
next
  assume "\<exists>post. s = p @ post"
  then show "startswith s p" by (auto simp: startswith_def)
qed

lemma contains_iff: "contains s sub \<longleftrightarrow> (\<exists>pre post. s = pre @ sub @ post)"
proof (induction s)
  case Nil
  then show ?case by auto
next
  case (Cons c cs)
  show ?case
  proof
    assume "contains (c # cs) sub"
    then consider "startswith (c # cs) sub" | "contains cs sub" by auto
    then show "\<exists>pre post. c # cs = pre @ sub @ post"
    proof cases
      case 1
      then obtain post where "c # cs = sub @ post" by (auto simp: startswith_iff)
      then have "c # cs = [] @ sub @ post" by simp
      then show ?thesis by blast
    next
      case 2
      then obtain pre post where "cs = pre @ sub @ post" using Cons.IH by auto
      then have "c # cs = (c # pre) @ sub @ post" by simp
      then show ?thesis by blast
    qed
  next
    assume "\<exists>pre post. c # cs = pre @ sub @ post"
    then obtain pre post where eq: "c # cs = pre @ sub @ post" by auto
    show "contains (c # cs) sub"
    proof (cases pre)
      case Nil
      then have "startswith (c # cs) sub" using eq by (auto simp: startswith_iff)
      then show ?thesis by simp
    next
      case (Cons a pre')
      then have "cs = pre' @ sub @ post" using eq by simp
      then have "contains cs sub" using Cons.IH by blast
      then show ?thesis by simp
    qed
  qed
qed

lemma contains_map: "contains s sub \<Longrightarrow> contains (map f s) (map f sub)"
  unfolding contains_iff by (metis map_append)

lemma contains_trans: "contains s t \<Longrightarrow> contains t u \<Longrightarrow> contains s u"
  unfolding contains_iff by (metis append.assoc)

lemma contains_prefix: "contains (p @ rest) p"
  unfolding contains_iff by (metis append_Nil)


lemma contains_refl: "contains s s"
  using contains_prefix[of s "[]"] by simp


subsection \<open>The prompt is a meta-chat\<close>

lemma meta_if_contains:
  "ind \<in> set meta_indicators \<Longrightarrow> contains text ind \<Longrightarrow> is_curlens_meta_chat text"
  unfolding is_curlens_meta_chat_def list_ex_iff str_lower_def
  using contains_map by blast

lemma prompt_has_indicator:
  "contains (build_summary_prompt messages max_words existing_summary) ''Summarize this coding chat in'' \<or>
   contains (build_summary_prompt messages max_words existing_summary) ''Update this chat summary with new messages''"
proof (cases "str_truthy existing_summary")
  case True
  have "build_summary_prompt messages max_words existing_summary =
        ''Update this chat summary with new messages'' @
          drop 42 (build_summary_prompt messages max_words existing_summary)"
    using True by (simp add: build_summary_prompt_def Let_def)
  then show ?thesis by (metis contains_prefix)
next
  case False
  have "build_summary_prompt messages max_words existing_summary =
        ''Summarize this coding chat in'' @
          drop 29 (build_summary_prompt messages max_words existing_summary)"
    using False by (simp add: build_summary_prompt_def Let_def)
  then show ?thesis by (metis contains_prefix)
qed

text \<open>
  Claim C10. Whatever the messages, the word limit and the prior summary, the prompt built
  by \<open>build_summary_prompt\<close>, in the fresh and in the update shape, is classified as a
  meta-chat by \<open>is_curlens_meta_chat\<close>; so \<open>has_meaningful_messages\<close> is false for every
  message list whose concatenated content contains such a prompt.
\<close>

theorem build_summary_prompt_is_meta_chat:
  "is_curlens_meta_chat (build_summary_prompt messages max_words existing_summary) \<and>
   (contains (concat (map content msgs)) (build_summary_prompt messages max_words existing_summary)
      \<longrightarrow> \<not> has_meaningful_messages msgs)"
proof -
  let ?p = "build_summary_prompt messages max_words existing_summary"
  obtain ind where ind: "ind \<in> set meta_indicators" "contains ?p ind"
    using prompt_has_indicator[of messages max_words existing_summary]
    by (auto simp: meta_indicators_def)
  have a: "is_curlens_meta_chat ?p" using ind by (rule meta_if_contains)
  have b: "\<not> has_meaningful_messages msgs" if "contains (concat (map content msgs)) ?p"
  proof -
    have "contains (concat (map content msgs)) ind" using that ind(2) by (rule contains_trans)
    then have "is_curlens_meta_chat (concat (map content msgs))" using ind(1) meta_if_contains by blast
    then show ?thesis by (simp add: has_meaningful_messages_def Let_def)
  qed
  show ?thesis using a b by blast
qed

theorem build_summary_prompt_is_meta_chat_witness:
  "is_curlens_meta_chat (build_summary_prompt [message_c] 70 None) \<and>
   \<not> has_meaningful_messages
       [\<lparr>role = JStr ''user'', content = build_summary_prompt [message_c] 70 None\<rparr>]"
  using build_summary_prompt_is_meta_chat[of "[message_c]" 70 None
          "[\<lparr>role = JStr ''user'', content = build_summary_prompt [message_c] 70 None\<rparr>]"]
  by (simp add: contains_refl)

subsection \<open>The actionability screen\<close>

text \<open>
  Claim C7. The screen accepts a summary exactly when it is not empty, has at least 10
  words and at least 50 alphabetic characters, and its lower-cased text contains none of
  the reject phrases. \<open>No actionable content\<close> is rejected; a text of 12 words and 80
  alphabetic characters that contains none of the phrases is accepted.
\<close>

theorem is_summary_actionable_iff:
  "(is_summary_actionable (Some s) \<longleftrightarrow>
      s \<noteq> [] \<and> 10 \<le> word_count s \<and> 50 \<le> alpha_chars s \<and>
      (\<forall>phrase \<in> set reject_phrases. \<not> contains (str_lower s) phrase)) \<and>
   \<not> is_summary_actionable None \<and>
   \<not> is_summary_actionable (Some ''No actionable content'') \<and>
   (word_count t = 12 \<and> alpha_chars t = 80 \<and>
    (\<forall>phrase \<in> set reject_phrases. \<not> contains (str_lower t) phrase)
      \<longrightarrow> is_summary_actionable (Some t))"
proof -
  have iff: "\<And>s. is_summary_actionable (Some s) \<longleftrightarrow>
      s \<noteq> [] \<and> 10 \<le> word_count s \<and> 50 \<le> alpha_chars s \<and>
      (\<forall>phrase \<in> set reject_phrases. \<not> contains (str_lower s) phrase)"
    by (auto simp: is_summary_actionable_def str_truthy_def list_ex_iff)
  have none: "\<not> is_summary_actionable None"
    by (simp add: is_summary_actionable_def str_truthy_def)
  have nac: "\<not> is_summary_actionable (Some ''No actionable content'')"
    by (simp add: is_summary_actionable_def str_truthy_def word_count_def isspace_def)
  have twelve: "is_summary_actionable (Some t)"
    if "word_count t = 12 \<and> alpha_chars t = 80 \<and>
        (\<forall>phrase \<in> set reject_phrases. \<not> contains (str_lower t) phrase)"
  proof -
    have "t \<noteq> []" using that by (auto simp: word_count_def)
    then show ?thesis using that iff[of t] by simp
  qed
  show ?thesis using iff none nac twelve by blast
qed

theorem is_summary_actionable_iff_witness:
  "word_count twelve_words = 12 \<and> alpha_chars twelve_words = 80 \<and>
   is_summary_actionable (Some twelve_words)"
proof -
  have a: "word_count twelve_words = 12" by code_simp
  have b: "alpha_chars twelve_words = 80" by code_simp
  have c: "\<forall>phrase \<in> set reject_phrases. \<not> contains (str_lower twelve_words) phrase"
    by code_simp
  show ?thesis
    using is_summary_actionable_iff[of twelve_words twelve_words] a b c by blast
qed

subsection \<open>The word limit\<close>

lemma str_words_plain: "w \<in> set (str_words s) \<Longrightarrow> plain_word w"
proof (induction s rule: str_words.induct)
  case 1
  then show ?case by simp
next
  case (2 c cs)
  show ?case
  proof (cases "isspace c")
    case True
    then show ?thesis using 2 by simp
  next
    case False
    then consider "w = c # takeWhile (\<lambda>x. \<not> isspace x) cs"
      | "w \<in> set (str_words (dropWhile (\<lambda>x. \<not> isspace x) cs))"
      using "2.prems" by auto
    then show ?thesis
    proof cases
      case 1
      have "\<forall>x \<in> set (takeWhile (\<lambda>x. \<not> isspace x) cs). \<not> isspace x"
        by (auto dest: set_takeWhileD)
      then show ?thesis using 1 False by (simp add: plain_word_def)
    next
      case 2
      then show ?thesis using "2.IH"(2)[OF False] by simp
    qed
  qed
qed

lemma isspace_space: "isspace CHR '' ''"
  by (simp add: isspace_def)

lemma str_words_word_space:
  "plain_word w \<Longrightarrow> str_words (w @ CHR '' '' # rest) = w # str_words rest"
proof -
  assume pw: "plain_word w"
  then obtain c cs where w: "w = c # cs" by (cases w) (auto simp: plain_word_def)
  have c: "\<not> isspace c" and cs: "\<forall>x \<in> set cs. \<not> isspace x"
    using pw w by (auto simp: plain_word_def)
  have t: "takeWhile (\<lambda>x. \<not> isspace x) (cs @ CHR '' '' # rest) = cs"
    using cs by (simp add: takeWhile_append2 isspace_space)
  have d: "dropWhile (\<lambda>x. \<not> isspace x) (cs @ CHR '' '' # rest) = CHR '' '' # rest"
    using cs by (simp add: dropWhile_append2 isspace_space)
  show ?thesis using c by (simp add: w t d isspace_space)
qed

lemma str_words_single: "plain_word w \<Longrightarrow> str_words w = [w]"
proof -
  assume pw: "plain_word w"
  then obtain c cs where w: "w = c # cs" by (cases w) (auto simp: plain_word_def)
  have c: "\<not> isspace c" and cs: "\<forall>x \<in> set cs. \<not> isspace x"
    using pw w by (auto simp: plain_word_def)
  have t: "takeWhile (\<lambda>x. \<not> isspace x) cs = cs" using cs by simp
  have d: "dropWhile (\<lambda>x. \<not> isspace x) cs = []" using cs by simp
  show ?thesis using c by (simp add: w t d)
qed

lemma plain_word_append: "plain_word w \<Longrightarrow> \<forall>c \<in> set sfx. \<not> isspace c \<Longrightarrow> plain_word (w @ sfx)"
  by (auto simp: plain_word_def)

lemma str_words_join_suffix:
  "ws \<noteq> [] \<Longrightarrow> \<forall>w \<in> set ws. plain_word w \<Longrightarrow> \<forall>c \<in> set sfx. \<not> isspace c \<Longrightarrow>
   str_words (str_join '' '' ws @ sfx) = butlast ws @ [last ws @ sfx]"
proof (induction "'' ''" ws rule: str_join.induct)
  case 1
  then show ?case by simp
next
  case (2 x)
  then show ?case by (simp add: str_words_single plain_word_append)
next
  case (3 x y ys)
  have "str_words (str_join '' '' (x # y # ys) @ sfx) =
        str_words (x @ CHR '' '' # (str_join '' '' (y # ys) @ sfx))" by simp
  also have "\<dots> = x # str_words (str_join '' '' (y # ys) @ sfx)"
    using 3 by (simp add: str_words_word_space)
  finally show ?case using 3 by simp
qed

lemma word_count_truncate:
  assumes "1 \<le> max_words" "word_count t > max_words"
  shows "truncate_to_words t max_words = str_join '' '' (take (nat max_words) (str_words t)) @ ''...''"
    and "word_count (truncate_to_words t max_words) = max_words"
proof -
  let ?ws = "take (nat max_words) (str_words t)"
  show eq: "truncate_to_words t max_words = str_join '' '' ?ws @ ''...''"
    using assms by (simp add: truncate_to_words_def word_count_def py_take_def Let_def)
  have len: "length ?ws = nat max_words" using assms by (simp add: word_count_def)
  then have ne: "?ws \<noteq> []" using assms(1) by auto
  have pl: "\<forall>w \<in> set ?ws. plain_word w"
    by (meson in_set_takeD str_words_plain)
  have "str_words (str_join '' '' ?ws @ ''...'') = butlast ?ws @ [last ?ws @ ''...'']"
    using ne pl by (rule str_words_join_suffix) (simp add: isspace_def)
  then have "length (str_words (str_join '' '' ?ws @ ''...'')) = length ?ws"
    using ne by simp
  then show "word_count (truncate_to_words t max_words) = max_words"
    using len assms(1) by (simp add: eq word_count_def)
qed

lemma word_count_Nil: "word_count [] = 0"
  by (simp add: word_count_def)

text \<open>
  Claim C8, amended. For a word limit of at least 1: a completion text of more than
  \<open>max_words\<close> words is cut to its first \<open>max_words\<close> words, joined by single spaces,
  with \<open>...\<close> appended, which counts exactly \<open>max_words\<close> words; a text within the
  limit is returned as the call gave it; so every summary returned has at most
  \<open>max_words\<close> words.
\<close>

theorem generate_summary_word_limit:
  assumes "1 \<le> max_words"
  shows "(\<forall>s. fst (generate_summary cursor messages model max_words existing_summary) = Some s
             \<longrightarrow> word_count s \<le> max_words) \<and>
         (\<forall>t. messages \<noteq> [] \<and>
              run_agent cursor (build_summary_prompt messages max_words existing_summary) model = Some t
             \<longrightarrow> fst (generate_summary cursor messages model max_words existing_summary) =
                   Some (if word_count t > max_words
                         then str_join '' '' (take (nat max_words) (str_words t)) @ ''...''
                         else t) \<and>
                 (word_count t > max_words \<longrightarrow>
                    word_count (str_join '' '' (take (nat max_words) (str_words t)) @ ''...'') = max_words))"
proof (intro conjI allI impI)
  fix s
  assume "fst (generate_summary cursor messages model max_words existing_summary) = Some s"
  then show "word_count s \<le> max_words"
    using word_count_truncate(2)[OF assms] assms
    by (auto simp: generate_summary_def Let_def str_truthy_def word_count_Nil
             split: if_splits option.splits)
next
  fix t
  assume a: "messages \<noteq> [] \<and>
     run_agent cursor (build_summary_prompt messages max_words existing_summary) model = Some t"
  show "fst (generate_summary cursor messages model max_words existing_summary) =
          Some (if word_count t > max_words
                then str_join '' '' (take (nat max_words) (str_words t)) @ ''...''
                else t)"
    using a word_count_truncate(1)[OF assms, of t] assms
    by (auto simp: generate_summary_def Let_def str_truthy_def word_count_Nil)
next
  fix t
  assume "word_count t > max_words"
  then show "word_count (str_join '' '' (take (nat max_words) (str_words t)) @ ''...'') = max_words"
    using word_count_truncate[OF assms, of t] by simp
qed

theorem generate_summary_word_limit_witness:
  "fst (generate_summary fixed_cursor [message_c] ''grok'' 5 None) =
     Some ''Fixed a login bug in...'' \<and>
   word_count ''Fixed a login bug in...'' = 5"
proof -
  have r: "run_agent fixed_cursor (build_summary_prompt [message_c] 5 None) ''grok'' =
             Some updated_summary"
    by (simp add: run_agent_def fixed_cursor_def) code_simp
  have w: "word_count updated_summary = 22" by code_simp
  have j: "str_join '' '' (take (nat 5) (str_words updated_summary)) @ ''...'' =
             ''Fixed a login bug in...''"
    by code_simp
  show ?thesis
    using generate_summary_word_limit[of 5 fixed_cursor "[message_c]" "''grok''" None] r w j
    by simp
qed

text \<open>
  With the word limit 0 the returned summary is \<open>...\<close>, which counts one word: the
  bound of claim C8 fails there.
\<close>

theorem generate_summary_word_limit_counterexample:
  "fst (generate_summary fixed_cursor [message_c] ''grok'' 0 None) = Some ''...'' \<and>
   word_count ''...'' = 1"
proof -
  have r: "run_agent fixed_cursor (build_summary_prompt [message_c] 0 None) ''grok'' =
             Some updated_summary"
    by (simp add: run_agent_def fixed_cursor_def) code_simp
  have w: "word_count updated_summary = 22" by code_simp
  have t: "truncate_to_words updated_summary 0 = ''...''" by code_simp
  have d: "word_count ''...'' = 1" by code_simp
  show ?thesis
    using r w t d by (simp add: generate_summary_def Let_def str_truthy_def updated_summary_def)
qed

subsection \<open>Trimming the messages to the character budget\<close>

lemma trim_json_loop_acc:
  "trim_json_loop max_chars msgs result total_len =
     result @ trim_json_loop max_chars msgs [] total_len"
proof (induction msgs arbitrary: result total_len)
  case Nil
  then show ?case by simp
next
  case (Cons msg rest)
  show ?case
    using Cons.IH[of "result @ [msg]"] Cons.IH[of "[msg]"]
    by (simp add: Let_def)
qed

lemma trim_json_loop_fit:
  "trim_json_loop max_chars msgs [] total_len =
     take (fit_count (max_chars - total_len) msgs) msgs @
     (if fit_count (max_chars - total_len) msgs < length msgs \<and>
         200 < length (content (msgs ! fit_count (max_chars - total_len) msgs))
      then [shorten (msgs ! fit_count (max_chars - total_len) msgs)] else [])"
proof (induction msgs arbitrary: total_len)
  case Nil
  then show ?case by simp
next
  case (Cons msg rest)
  show ?case
  proof (cases "total_len + message_len msg > max_chars")
    case True
    then have "message_len msg > max_chars - total_len" by simp
    then show ?thesis using True
      by (auto simp: Let_def shorten_def message_len_def)
  next
    case False
    then have nf: "\<not> message_len msg > max_chars - total_len" by simp
    have "trim_json_loop max_chars (msg # rest) [] total_len =
            msg # trim_json_loop max_chars rest [] (total_len + message_len msg)"
      using False trim_json_loop_acc[of max_chars rest "[msg]"]
      by (simp add: Let_def message_len_def)
    then show ?thesis
      using nf Cons.IH[of "total_len + message_len msg"]
      by (simp add: algebra_simps)
  qed
qed

lemma message_len_nonneg: "0 \<le> message_len msg"
  by (simp add: message_len_def)

lemma serialized_len_nonneg: "0 \<le> serialized_len msgs"
  by (induction msgs) (auto simp: serialized_len_def message_len_nonneg)

lemma fit_count_le: "fit_count budget msgs \<le> length msgs"
  by (induction msgs arbitrary: budget) auto

lemma fit_count_fits:
  "j < fit_count budget msgs \<Longrightarrow> serialized_len (take (Suc j) msgs) \<le> budget"
proof (induction msgs arbitrary: budget j)
  case Nil
  then show ?case by simp
next
  case (Cons msg rest)
  then have fit: "\<not> message_len msg > budget" by (auto split: if_splits)
  show ?case
  proof (cases j)
    case 0
    then show ?thesis using fit by (simp add: serialized_len_def)
  next
    case (Suc j')
    then have "j' < fit_count (budget - message_len msg) rest" using Cons.prems fit by simp
    then have "serialized_len (take (Suc j') rest) \<le> budget - message_len msg" by (rule Cons.IH)
    then show ?thesis using Suc by (simp add: serialized_len_def)
  qed
qed

lemma fit_count_overflow:
  "fit_count budget msgs < length msgs \<Longrightarrow>
   budget < serialized_len (take (Suc (fit_count budget msgs)) msgs)"
proof (induction msgs arbitrary: budget)
  case Nil
  then show ?case by simp
next
  case (Cons msg rest)
  show ?case
  proof (cases "message_len msg > budget")
    case True
    then show ?thesis by (simp add: serialized_len_def)
  next
    case False
    then have "fit_count (budget - message_len msg) rest < length rest" using Cons.prems by simp
    then have "budget - message_len msg < serialized_len (take (Suc (fit_count (budget - message_len msg) rest)) rest)"
      by (rule Cons.IH)
    then show ?thesis using False by (simp add: serialized_len_def)
  qed
qed

text \<open>
  Claim C9, amended. The messages are taken in input order while their serializations fit
  the budget together. The first message that does not fit is included with its content
  cut to 200 characters and the marker \<open>... [trimmed]\<close> appended when its content is
  longer than 200 characters, and is left out otherwise; no later message is included.
\<close>

theorem trim_json_messages_budget:
  "trim_json_messages msgs max_chars =
     take (fit_count max_chars msgs) msgs @
     (if fit_count max_chars msgs < length msgs \<and>
         200 < length (content (msgs ! fit_count max_chars msgs))
      then [shorten (msgs ! fit_count max_chars msgs)] else []) \<and>
   fit_count max_chars msgs \<le> length msgs \<and>
   (\<forall>j < fit_count max_chars msgs. serialized_len (take (Suc j) msgs) \<le> max_chars) \<and>
   (fit_count max_chars msgs < length msgs \<longrightarrow>
      max_chars < serialized_len (take (Suc (fit_count max_chars msgs)) msgs))"
  using trim_json_loop_fit[of max_chars msgs 0] fit_count_le[of max_chars msgs]
    fit_count_fits[of _ max_chars msgs] fit_count_overflow[of max_chars msgs]
  by (simp add: trim_json_messages_def)

lemma escape_plain: "concat (map escape_char (replicate n CHR ''a'')) = replicate n CHR ''a''"
  by (induction n) (auto simp: escape_char_def)

lemma message_len_user: "message_len (long_message ''user'' n) = int n + 31"
  by (simp add: message_len_def long_message_def message_json_def json_string_def escape_plain
        escape_char_def)

lemma message_len_assistant: "message_len (long_message ''assistant'' n) = int n + 36"
  by (simp add: message_len_def long_message_def message_json_def json_string_def escape_plain
        escape_char_def)

lemma message_len_short:
  "message_len \<lparr>role = JStr ''assistant'', content = ''Run the tests again''\<rparr> = 55"
  by (simp add: message_len_def message_json_def json_string_def escape_char_def)

lemma content_long: "content (long_message r n) = replicate n CHR ''a''"
  by (simp add: long_message_def)

lemma fit_count_overflow_example: "fit_count 6000 overflow_example = 3"
  by (simp add: overflow_example_def message_len_user message_len_assistant message_len_short)

text \<open>
  Four messages of at most 2000 characters, budget 6000: the serialization exceeds the
  budget, the fourth message is left out whole, and the last included message carries no
  marker.
\<close>

theorem trim_json_messages_budget_counterexample:
  "6000 < serialized_len overflow_example \<and>
   trim_json_messages overflow_example 6000 = take 3 overflow_example \<and>
   content (last (trim_json_messages overflow_example 6000)) = replicate 1900 CHR ''a''"
proof -
  have a: "serialized_len overflow_example = 6053"
    by (simp add: serialized_len_def overflow_example_def message_len_user message_len_assistant
          message_len_short)
  have b: "trim_json_messages overflow_example 6000 = take 3 overflow_example"
    using trim_json_loop_fit[of 6000 overflow_example 0]
    by (simp add: trim_json_messages_def fit_count_overflow_example)
       (simp add: overflow_example_def)
  have c: "content (last (take 3 overflow_example)) = replicate 1900 CHR ''a''"
    by (simp add: overflow_example_def content_long)
  show ?thesis using a b c by simp
qed

theorem trim_json_messages_budget_witness:
  "fit_count 6000 trimmed_example = 2 \<and>
   trim_json_messages trimmed_example 6000 =
     take 2 trimmed_example @ [shorten (trimmed_example ! 2)] \<and>
   content (shorten (trimmed_example ! 2)) = replicate 200 CHR ''a'' @ ''... [trimmed]''"
proof -
  have a: "fit_count 6000 trimmed_example = 2"
    by (simp add: trimmed_example_def message_len_user message_len_assistant)
  have b: "content (trimmed_example ! 2) = replicate 2000 CHR ''a''"
    by (simp add: trimmed_example_def content_long)
  show ?thesis
    using trim_json_messages_budget[of trimmed_example 6000] b
    by (simp add: a shorten_def) (simp add: trimmed_example_def)
qed

section \<open>Proofs: ContentExtractor\<close>

lemma extract_message_system: "is_system_blob d \<Longrightarrow> extract_message d = Inr None"
  by (cases d) (auto simp: is_system_blob_def extract_message_def Let_def)

lemma extract_message_role:
  "extract_message d = Inr (Some m) \<Longrightarrow> role m \<noteq> JStr ''system''"
  by (cases d)
     (auto simp: extract_message_def Let_def split: if_splits sum.splits)

lemma extract_messages_skip_system:
  "extract_messages (filter (\<lambda>b. \<not> is_system_blob (snd b)) blobs) = extract_messages blobs"
proof (induction blobs)
  case Nil
  then show ?case by simp
next
  case (Cons b blobs)
  obtain bid d where b: "b = (bid, d)" by (cases b)
  show ?case
  proof (cases "is_system_blob d")
    case True
    then show ?thesis using Cons.IH b
      by (simp add: extract_message_system split: sum.splits)
  next
    case False
    then show ?thesis using Cons.IH b by (simp split: sum.splits)
  qed
qed

lemma extract_messages_roles:
  "extract_messages blobs = Inr msgs \<Longrightarrow> m \<in> set msgs \<Longrightarrow> role m \<noteq> JStr ''system''"
proof (induction blobs arbitrary: msgs)
  case Nil
  then show ?case by simp
next
  case (Cons b blobs)
  obtain bid d where b: "b = (bid, d)" by (cases b)
  from Cons.prems(1) b obtain mo rest where
    mo: "extract_message d = Inr mo" and rest: "extract_messages blobs = Inr rest"
    and msgs: "msgs = (case mo of Some msg \<Rightarrow> msg # rest | None \<Rightarrow> rest)"
    by (auto split: sum.splits)
  show ?case
  proof (cases mo)
    case None
    then show ?thesis using msgs Cons.IH[OF rest] Cons.prems(2) by simp
  next
    case (Some msg)
    then have "m = msg \<or> m \<in> set rest" using msgs Cons.prems(2) by simp
    then show ?thesis
      using extract_message_role[of d msg] mo Some Cons.IH[OF rest] by auto
  qed
qed

text \<open>
  Claim C6. A blob whose payload has the role \<open>system\<close> contributes nothing to the
  output of the extractor, whatever its content: removing all such blobs from the input
  changes neither the messages nor an exception, and no message of the output has the
  role \<open>system\<close>.
\<close>

theorem extract_messages_drops_system:
  "extract_messages (filter (\<lambda>b. \<not> is_system_blob (snd b)) blobs) = extract_messages blobs \<and>
   (\<forall>msgs. extract_messages blobs = Inr msgs \<longrightarrow> (\<forall>m \<in> set msgs. role m \<noteq> JStr ''system''))"
  using extract_messages_skip_system[of blobs] extract_messages_roles[of blobs] by blast

theorem extract_messages_drops_system_witness:
  "extract_messages [(''A'', blob_a)] = extract_messages [(''A'', blob_a), (''S'', blob_sys)]"
  using extract_messages_drops_system[of "[(''A'', blob_a), (''S'', blob_sys)]"]
  by (simp add: is_system_blob_def blob_a_def blob_sys_def dict_get_def)

subsection \<open>The user query\<close>

declare str_split_str.simps [simp del]

text \<open>A tag whose first character does not occur again in it cannot overlap itself.\<close>

lemma no_straddle:
  assumes tag: "tag = c # t" "c \<notin> set t"
    and nc: "\<not> contains pre tag"
  shows "\<not> startswith (pre @ tag @ rest) tag \<or> pre = []"
proof (rule ccontr)
  assume "\<not> (\<not> startswith (pre @ tag @ rest) tag \<or> pre = [])"
  then have sw: "startswith (pre @ tag @ rest) tag" and ne: "pre \<noteq> []" by auto
  from sw have tk: "take (length tag) (pre @ tag @ rest) = tag" by (simp add: startswith_def)
  show False
  proof (cases "length tag \<le> length pre")
    case True
    then have "take (length tag) pre = tag" using tk by simp
    then have "pre = tag @ drop (length tag) pre" by (metis append_take_drop_id)
    then have "contains pre tag" unfolding contains_iff by (metis append_Nil)
    then show False using nc by simp
  next
    case False
    then have lt: "length pre < length tag" by simp
    have "(take (length tag) (pre @ tag @ rest)) ! length pre = (pre @ tag @ rest) ! length pre"
      using lt by (intro nth_take)
    also have "\<dots> = c" using tag(1) by (simp add: nth_append)
    finally have "tag ! length pre = c" using tk by simp
    moreover have "0 < length pre" using ne by simp
    ultimately have "c \<in> set t"
      using tag(1) lt by (cases "length pre") (auto simp: nth_Cons')
    then show False using tag(2) by simp
  qed
qed

lemma contains_suffix: "contains b x \<Longrightarrow> contains (a @ b) x"
  unfolding contains_iff by (metis append.assoc)

lemma contains_Cons: "contains cs x \<Longrightarrow> contains (c # cs) x"
  by simp

lemma not_contains_tl: "\<not> contains (c # cs) x \<Longrightarrow> \<not> contains cs x"
  by auto

lemma str_strip_lr: "str_strip s = rstrip (lstrip s)"
  by (simp add: str_strip_def lstrip_def rstrip_def)

lemma rstrip_all_space: "\<forall>c \<in> set s. isspace c \<Longrightarrow> rstrip s = []"
  by (simp add: rstrip_def)

lemma rstrip_Cons:
  "\<not> (\<forall>x \<in> set (c # cs). isspace x) \<Longrightarrow> rstrip (c # cs) = c # rstrip cs"
proof -
  assume a: "\<not> (\<forall>x \<in> set (c # cs). isspace x)"
  show ?thesis
  proof (cases "\<forall>x \<in> set cs. isspace x")
    case True
    then have "\<not> isspace c" using a by auto
    then show ?thesis using True by (simp add: rstrip_def dropWhile_append)
  next
    case False
    then show ?thesis by (auto simp: rstrip_def dropWhile_append)
  qed
qed

lemma rstrip_prefix: "\<exists>ws. s = rstrip s @ ws"
proof -
  have "rev s = takeWhile isspace (rev s) @ dropWhile isspace (rev s)" by simp
  then have "s = rev (dropWhile isspace (rev s)) @ rev (takeWhile isspace (rev s))"
    by (metis rev_append rev_rev_ident)
  then show ?thesis unfolding rstrip_def by blast
qed

lemma str_strip_idem: "str_strip (str_strip s) = str_strip s"
proof -
  let ?a = "lstrip s"
  let ?r = "rstrip ?a"
  have l: "lstrip ?r = ?r"
  proof (cases "?r = []")
    case True
    then show ?thesis by (simp add: lstrip_def)
  next
    case False
    obtain ws where a: "?a = ?r @ ws" using rstrip_prefix by blast
    then have "?a \<noteq> []" using False by auto
    then have "\<not> isspace (hd ?a)" unfolding lstrip_def by (rule hd_dropWhile)
    moreover have "hd ?a = hd ?r" using a False by (metis hd_append2)
    ultimately show ?thesis using False by (cases ?r) (auto simp: lstrip_def)
  qed
  have "rstrip ?r = ?r" by (simp add: rstrip_def)
  then show ?thesis using l by (simp add: str_strip_lr)
qed


lemma close_tag: "user_query_close = CHR ''<'' # ''/user_query>''" "CHR ''<'' \<notin> set ''/user_query>''"
  by (simp_all add: user_query_close_def)

lemma open_tag: "user_query_open = CHR ''<'' # ''user_query>''" "CHR ''<'' \<notin> set ''user_query>''"
  by (simp_all add: user_query_open_def)

lemma not_space_lt: "\<not> isspace CHR ''<''"
  by (simp add: isspace_def)

lemma dropWhile_close: "dropWhile isspace (user_query_close @ post) = user_query_close @ post"
  by (simp add: close_tag(1) not_space_lt)

lemma startswith_append_self: "startswith (p @ rest) p"
  by (simp add: startswith_def)

lemma lazy_group_close: "lazy_group (user_query_close @ post) = Some []"
proof -
  have "lazy_group (CHR ''<'' # ''/user_query>'' @ post) = Some []"
    using dropWhile_close[of post] startswith_append_self[of user_query_close post]
    by (simp add: close_tag(1) not_space_lt)
  then show ?thesis by (simp add: close_tag(1))
qed

lemma contains_dropWhile: "contains (dropWhile P s) x \<Longrightarrow> contains s x"
proof -
  assume "contains (dropWhile P s) x"
  then have "contains (takeWhile P s @ dropWhile P s) x" by (rule contains_suffix)
  then show ?thesis by simp
qed

lemma startswith_contains: "startswith s x \<Longrightarrow> contains s x"
  by (cases s) (auto simp: startswith_def)

lemma lazy_group_body:
  "\<not> contains b user_query_close \<Longrightarrow> lazy_group (b @ user_query_close @ post) = Some (rstrip b)"
proof (induction b)
  case Nil
  then show ?case by (simp add: lazy_group_close rstrip_def)
next
  case (Cons c b')
  show ?case
  proof (cases "\<forall>x \<in> set (c # b'). isspace x")
    case True
    then have "dropWhile isspace ((c # b') @ user_query_close @ post) =
               dropWhile isspace (user_query_close @ post)"
      by (intro dropWhile_append2) auto
    then have "dropWhile isspace (c # b' @ user_query_close @ post) = user_query_close @ post"
      by (simp only: dropWhile_close append_Cons)
    then have "startswith (dropWhile isspace (c # b' @ user_query_close @ post)) user_query_close"
      by (simp only: startswith_append_self)
    then show ?thesis using True by (simp add: rstrip_all_space)
  next
    case False
    let ?r = "dropWhile isspace (c # b')"
    have rne: "?r \<noteq> []" using False by (simp add: dropWhile_eq_Nil_conv)
    obtain x where "x \<in> set (c # b')" "\<not> isspace x" using False by blast
    then have "dropWhile isspace ((c # b') @ user_query_close @ post) = ?r @ user_query_close @ post"
      by (rule dropWhile_append1)
    moreover have "\<not> contains ?r user_query_close"
    proof
      assume "contains ?r user_query_close"
      then have "contains (c # b') user_query_close" by (rule contains_dropWhile)
      then show False using Cons.prems by blast
    qed
    then have "\<not> startswith (?r @ user_query_close @ post) user_query_close"
      using no_straddle[OF close_tag, of ?r post] rne by blast
    ultimately have ns: "\<not> startswith (dropWhile isspace (c # b' @ user_query_close @ post)) user_query_close"
      by simp
    have "\<not> contains b' user_query_close" using Cons.prems by (rule not_contains_tl)
    then have "lazy_group (b' @ user_query_close @ post) = Some (rstrip b')" by (rule Cons.IH)
    then have "lazy_group (c # b' @ user_query_close @ post) = Some (c # rstrip b')"
      using ns by simp
    then show ?thesis using rstrip_Cons[OF False] by simp
  qed
qed

lemma after_open_body:
  "\<not> contains body user_query_close \<Longrightarrow>
   after_open (body @ user_query_close @ post) = Some (str_strip body)"
proof (induction body)
  case Nil
  have "after_open (CHR ''<'' # ''/user_query>'' @ post) = Some []"
    using lazy_group_close[of post] by (simp add: close_tag(1) not_space_lt)
  then show ?case by (simp add: close_tag(1) str_strip_def)
next
  case (Cons c b')
  show ?case
  proof (cases "isspace c")
    case True
    have "\<not> contains b' user_query_close" using Cons.prems by (rule not_contains_tl)
    then have "after_open (b' @ user_query_close @ post) = Some (str_strip b')" by (rule Cons.IH)
    then show ?thesis using True by (simp add: str_strip_def)
  next
    case False
    then have "after_open ((c # b') @ user_query_close @ post) = Some (rstrip (c # b'))"
      using lazy_group_body[OF Cons.prems, of post] by simp
    then show ?thesis using False by (simp add: str_strip_lr lstrip_def)
  qed
qed

lemma search_at_open:
  "search_user_query (user_query_open @ rest) =
     (case after_open rest of Some g \<Rightarrow> Some g
      | None \<Rightarrow> search_user_query (''user_query>'' @ rest))"
proof -
  have "startswith (user_query_open @ rest) user_query_open" by (rule startswith_append_self)
  then have "startswith (CHR ''<'' # ''user_query>'' @ rest) user_query_open"
    by (simp add: open_tag(1))
  moreover have "drop (length user_query_open) (CHR ''<'' # ''user_query>'' @ rest) = rest"
    by (simp add: open_tag(1))
  ultimately have "search_user_query (CHR ''<'' # ''user_query>'' @ rest) =
     (case after_open rest of Some g \<Rightarrow> Some g
      | None \<Rightarrow> search_user_query (''user_query>'' @ rest))"
    by (simp only: search_user_query.simps if_True)
  then show ?thesis by (simp add: open_tag(1))
qed

lemma search_first_span:
  "\<not> contains pre user_query_open \<Longrightarrow> \<not> contains body user_query_close \<Longrightarrow>
   search_user_query (pre @ user_query_open @ body @ user_query_close @ post) =
     Some (str_strip body)"
proof (induction pre)
  case Nil
  then show ?case
    using search_at_open[of "body @ user_query_close @ post"] after_open_body[of body post]
    by simp
next
  case (Cons c p')
  have "\<not> startswith ((c # p') @ user_query_open @ body @ user_query_close @ post) user_query_open"
    using no_straddle[OF open_tag Cons.prems(1)] by blast
  then have "search_user_query ((c # p') @ user_query_open @ body @ user_query_close @ post) =
             search_user_query (p' @ user_query_open @ body @ user_query_close @ post)"
    by simp
  moreover have "\<not> contains p' user_query_open" using Cons.prems(1) by (rule not_contains_tl)
  ultimately show ?case using Cons.IH Cons.prems(2) by simp
qed

lemma lazy_group_contains: "lazy_group s = Some g \<Longrightarrow> contains s user_query_close"
proof (induction s arbitrary: g)
  case Nil
  then show ?case by simp
next
  case (Cons c cs)
  show ?case
  proof (cases "startswith (dropWhile isspace (c # cs)) user_query_close")
    case True
    then have "contains (dropWhile isspace (c # cs)) user_query_close"
      by (rule startswith_contains)
    then show ?thesis by (rule contains_dropWhile)
  next
    case False
    then obtain g' where "lazy_group cs = Some g'" using Cons.prems by auto
    then have "contains cs user_query_close" by (rule Cons.IH)
    then show ?thesis by simp
  qed
qed

lemma after_open_contains: "after_open s = Some g \<Longrightarrow> contains s user_query_close"
proof (induction s arbitrary: g)
  case Nil
  then show ?case by simp
next
  case (Cons c cs)
  show ?case
  proof (cases "isspace c \<and> after_open cs \<noteq> None")
    case True
    then obtain g' where "after_open cs = Some g'" by auto
    then have "contains cs user_query_close" by (rule Cons.IH)
    then show ?thesis by simp
  next
    case False
    then have "lazy_group (c # cs) = Some g" using Cons.prems by (auto split: option.splits)
    then show ?thesis by (rule lazy_group_contains)
  qed
qed

lemma search_span: "search_user_query s = Some g \<Longrightarrow> user_query_span s"
proof (induction s)
  case Nil
  then show ?case by simp
next
  case (Cons c cs)
  show ?case
  proof (cases "startswith (c # cs) user_query_open \<and>
                after_open (drop (length user_query_open) (c # cs)) \<noteq> None")
    case True
    then obtain g' where g': "after_open (drop (length user_query_open) (c # cs)) = Some g'"
      by auto
    have "c # cs = user_query_open @ drop (length user_query_open) (c # cs)"
      using True by (metis append_take_drop_id startswith_def)
    moreover obtain body post where
      "drop (length user_query_open) (c # cs) = body @ user_query_close @ post"
      using after_open_contains[OF g'] unfolding contains_iff by blast
    ultimately have "c # cs = [] @ user_query_open @ body @ user_query_close @ post" by simp
    then show ?thesis unfolding user_query_span_def by blast
  next
    case False
    then have "search_user_query cs = Some g" using Cons.prems by (auto split: option.splits)
    then have "user_query_span cs" by (rule Cons.IH)
    then obtain pre body post where "cs = pre @ user_query_open @ body @ user_query_close @ post"
      unfolding user_query_span_def by blast
    then have "c # cs = (c # pre) @ user_query_open @ body @ user_query_close @ post" by simp
    then show ?thesis unfolding user_query_span_def by blast
  qed
qed

lemma contains_lazy_group: "contains s user_query_close \<Longrightarrow> lazy_group s \<noteq> None"
proof (induction s)
  case Nil
  then show ?case by (simp add: user_query_close_def)
next
  case (Cons c cs)
  show ?case
  proof (cases "startswith (dropWhile isspace (c # cs)) user_query_close")
    case True
    then show ?thesis by simp
  next
    case False
    have "\<not> startswith (c # cs) user_query_close"
    proof
      assume sw: "startswith (c # cs) user_query_close"
      then have "c = CHR ''<''" by (simp add: startswith_def close_tag(1))
      then have "dropWhile isspace (c # cs) = c # cs" by (simp add: not_space_lt)
      then show False using False sw by simp
    qed
    then have "contains cs user_query_close" using Cons.prems by simp
    then have "lazy_group cs \<noteq> None" by (rule Cons.IH)
    then show ?thesis using False by auto
  qed
qed

lemma contains_after_open: "contains s user_query_close \<Longrightarrow> after_open s \<noteq> None"
proof (cases s)
  case Nil
  assume "contains s user_query_close"
  then show ?thesis using Nil by (simp add: user_query_close_def)
next
  case (Cons c cs)
  assume "contains s user_query_close"
  then have "lazy_group (c # cs) \<noteq> None" using Cons contains_lazy_group by blast
  then show ?thesis
    unfolding Cons by (cases "after_open cs") (simp_all del: lazy_group.simps)
qed

lemma search_Cons_cases:
  "search_user_query (c # cs) = search_user_query cs \<or> (\<exists>g. search_user_query (c # cs) = Some g)"
proof (cases "startswith (c # cs) user_query_open")
  case sw: True
  show ?thesis
  proof (cases "after_open (drop (length user_query_open) (c # cs))")
    case None
    then show ?thesis using sw by (simp only: search_user_query.simps if_True option.case simp_thms)
  next
    case (Some g)
    then have "search_user_query (c # cs) = Some g"
      using sw by (simp only: search_user_query.simps if_True option.case)
    then show ?thesis by blast
  qed
next
  case False
  then show ?thesis by (simp only: search_user_query.simps if_False simp_thms)
qed

lemma span_search:
  "contains rest user_query_close \<Longrightarrow> search_user_query (pre @ user_query_open @ rest) \<noteq> None"
proof (induction pre)
  case Nil
  then have "after_open rest \<noteq> None" by (rule contains_after_open)
  then obtain g where "after_open rest = Some g" by blast
  then have "search_user_query (user_query_open @ rest) = Some g"
    using search_at_open[of rest] by (simp only: option.case)
  then show ?case by (simp only: append_Nil option.distinct not_False_eq_True)
next
  case (Cons c p')
  have ih: "search_user_query (p' @ user_query_open @ rest) \<noteq> None"
    using Cons.IH Cons.prems by blast
  have "search_user_query (c # (p' @ user_query_open @ rest)) \<noteq> None"
    using search_Cons_cases[of c "p' @ user_query_open @ rest"] ih by (metis option.distinct(1))
  then show ?case by (simp only: append_Cons) blast
qed

lemma span_iff_search: "user_query_span text \<longleftrightarrow> search_user_query text \<noteq> None"
proof
  assume "user_query_span text"
  then obtain pre body post where t: "text = pre @ user_query_open @ body @ user_query_close @ post"
    unfolding user_query_span_def by blast
  have "contains (body @ user_query_close @ post) user_query_close"
    unfolding contains_iff by blast
  then show "search_user_query text \<noteq> None" unfolding t by (rule span_search)
next
  assume "search_user_query text \<noteq> None"
  then show "user_query_span text" using search_span by blast
qed


lemma contains_length: "contains s x \<Longrightarrow> length x \<le> length s"
  unfolding contains_iff by auto

lemma split_none: "sep \<noteq> [] \<Longrightarrow> \<not> contains s sep \<Longrightarrow> str_split_str sep s = [s]"
proof (induction s)
  case Nil
  then show ?case by (simp add: str_split_str.simps)
next
  case (Cons c cs)
  have ns: "\<not> startswith (c # cs) sep" using Cons.prems(2) by simp
  have "\<not> contains cs sep" using Cons.prems(2) by (rule not_contains_tl)
  then have "str_split_str sep cs = [cs]" using Cons.IH Cons.prems(1) by blast
  then show ?case
    using ns Cons.prems(1) by (subst str_split_str.simps) simp
qed

lemma split_last:
  assumes tag: "sep = c # t" "c \<notin> set t"
    and na: "\<not> contains rest sep"
  shows "last (str_split_str sep (before @ sep @ rest)) = rest \<and>
         1 < length (str_split_str sep (before @ sep @ rest))"
proof (induction "length before" arbitrary: before rule: less_induct)
  case less
  let ?text = "before @ sep @ rest"
  have sne: "sep \<noteq> []" using tag(1) by simp
  have tne: "?text \<noteq> []" using sne by simp
  show ?case
  proof (cases "startswith ?text sep")
    case True
    then have unfold: "str_split_str sep ?text = [] # str_split_str sep (drop (length sep) ?text)"
      using sne tne by (subst str_split_str.simps) simp
    show ?thesis
    proof (cases "before = []")
      case True
      then have d: "drop (length sep) ?text = rest" by simp
      have "str_split_str sep ?text = [[], rest]"
        using unfold split_none[OF sne na] by (simp only: d)
      then show ?thesis by simp
    next
      case False
      have "length sep \<le> length before"
      proof (rule ccontr)
        assume "\<not> length sep \<le> length before"
        then have "\<not> contains before sep" using contains_length by fastforce
        then show False using no_straddle[OF tag, of before rest] True False by blast
      qed
      then have "take (length sep) before = sep"
        using True by (simp add: startswith_def)
      then obtain b2 where b2: "before = sep @ b2" by (metis append_take_drop_id)
      then have "length b2 < length before" using sne by simp
      then have ih: "last (str_split_str sep (b2 @ sep @ rest)) = rest \<and>
                 1 < length (str_split_str sep (b2 @ sep @ rest))"
        by (rule less.hyps)
      have d: "drop (length sep) ?text = b2 @ sep @ rest" using b2 by simp
      have "str_split_str sep ?text = [] # str_split_str sep (b2 @ sep @ rest)"
        using unfold by (simp only: d)
      then show ?thesis using ih by (cases "str_split_str sep (b2 @ sep @ rest)") auto
    qed
  next
    case False
    then have bne: "before \<noteq> []" by (auto simp: startswith_def)
    then obtain x b2 where b2: "before = x # b2" by (cases before) auto
    then have "length b2 < length before" by simp
    then have ih: "last (str_split_str sep (b2 @ sep @ rest)) = rest \<and>
               1 < length (str_split_str sep (b2 @ sep @ rest))"
      by (rule less.hyps)
    then obtain w ws where ws: "str_split_str sep (b2 @ sep @ rest) = w # ws" "ws \<noteq> []"
      by (cases "str_split_str sep (b2 @ sep @ rest)") auto
    have "str_split_str sep ?text = (x # w) # ws"
      using False sne b2 ws by (subst str_split_str.simps) simp
    then show ?thesis using ih ws by simp
  qed
qed

lemma extract_message_user:
  assumes "dict_get kvs ''role'' JNull = JStr ''user''"
    and "extract_text_content (dict_get kvs ''content'' JNull) = Inr text"
    and "10 \<le> length (str_strip text)"
  shows "extract_message (JObj kvs) =
           Inr (if length (str_strip (extract_user_query text)) < 10 \<or>
                   is_mostly_metadata (extract_user_query text)
                then None
                else Some \<lparr>role = JStr ''user'', content = take 2000 (extract_user_query text)\<rparr>)"
proof -
  have tne: "text \<noteq> []" using assms(3) by (auto simp: str_strip_def)
  have "truthy (dict_get kvs ''content'' JNull)"
    using assms(2) tne
    by (cases "dict_get kvs ''content'' JNull") (auto simp: extract_text_content_def)
  moreover have "length (str_strip (extract_user_query text)) < 10" if "extract_user_query text = []"
    using that by (simp add: str_strip_def)
  ultimately show ?thesis
    using assms tne by (auto simp: extract_message_def Let_def)
qed

lemma extract_user_query_span:
  assumes "text = pre @ user_query_open @ body @ user_query_close @ post"
    and "\<not> contains pre user_query_open" "\<not> contains body user_query_close"
  shows "extract_user_query text = str_strip body"
  using search_first_span[OF assms(2,3), of post] assms(1)
  by (simp add: extract_user_query_def str_strip_idem)

lemma reminder_tag:
  "reminder_close = CHR ''<'' # ''/system_reminder>''"
  "CHR ''<'' \<notin> set ''/system_reminder>''"
  by (simp_all add: reminder_close_def)

lemma extract_user_query_no_span:
  assumes "\<not> user_query_span text"
  shows "extract_user_query text =
     (if list_ex (\<lambda>tag. startswith (str_strip text) tag) metadata_tags then []
      else if contains text reminder_open then
        (let parts = str_split_str reminder_close text in
         if length parts > 1 then str_strip (last parts) else text)
      else text)"
proof -
  have "search_user_query text = None" using assms span_iff_search by blast
  then show ?thesis by (simp add: extract_user_query_def Let_def)
qed

lemma first_occurrence:
  "x \<noteq> [] \<Longrightarrow> contains s x \<Longrightarrow> \<exists>pre post. s = pre @ x @ post \<and> \<not> contains pre x"
proof (induction s)
  case Nil
  then show ?case by simp
next
  case (Cons c cs)
  show ?case
  proof (cases "startswith (c # cs) x")
    case True
    then obtain post where "c # cs = [] @ x @ post" by (auto simp: startswith_iff)
    moreover have "\<not> contains [] x" using Cons.prems(1) by simp
    ultimately show ?thesis by blast
  next
    case False
    then have "contains cs x" using Cons.prems(2) by simp
    then obtain pre post where p: "cs = pre @ x @ post" "\<not> contains pre x"
      using Cons.IH Cons.prems(1) by blast
    have "\<not> startswith (c # pre) x"
    proof
      assume "startswith (c # pre) x"
      then obtain q where "c # pre = x @ q" by (auto simp: startswith_iff)
      then have "c # cs = x @ (q @ x @ post)" using p(1) by simp
      then show False using False startswith_iff by blast
    qed
    then have "\<not> contains (c # pre) x" using p(2) by simp
    moreover have "c # cs = (c # pre) @ x @ post" using p(1) by simp
    ultimately show ?thesis by blast
  qed
qed

lemma canonical_span:
  assumes "user_query_span text"
  shows "\<exists>pre body post. text = pre @ user_query_open @ body @ user_query_close @ post \<and>
           \<not> contains pre user_query_open \<and> \<not> contains body user_query_close"
proof -
  obtain p0 b0 q0 where t0: "text = p0 @ user_query_open @ b0 @ user_query_close @ q0"
    using assms unfolding user_query_span_def by blast
  define r0 where "r0 = b0 @ user_query_close @ q0"
  have c0: "contains r0 user_query_close" unfolding r0_def contains_iff by blast
  have one: "user_query_open \<noteq> []" by (simp add: user_query_open_def)
  have cne: "user_query_close \<noteq> []" by (simp add: user_query_close_def)
  have "contains text user_query_open" unfolding t0 contains_iff by blast
  then obtain pre rest where t1: "text = pre @ user_query_open @ rest"
    and np: "\<not> contains pre user_query_open"
    using first_occurrence[OF one] by blast
  have "p0 @ (user_query_open @ r0) = pre @ (user_query_open @ rest)"
    using t0 t1 by (simp add: r0_def)
  then have "\<exists>us. (p0 = pre @ us \<and> us @ (user_query_open @ r0) = user_query_open @ rest) \<or>
                  (p0 @ us = pre \<and> user_query_open @ r0 = us @ (user_query_open @ rest))"
    by (simp only: append_eq_append_conv2)
  then obtain us where us:
    "(p0 = pre @ us \<and> us @ (user_query_open @ r0) = user_query_open @ rest) \<or>
     (p0 @ us = pre \<and> user_query_open @ r0 = us @ (user_query_open @ rest))" ..
  have "contains rest user_query_close"
  proof (cases "p0 = pre @ us \<and> us @ (user_query_open @ r0) = user_query_open @ rest")
    case True
    then have e: "user_query_open @ rest = (us @ user_query_open) @ r0" by simp
    have "rest = drop (length user_query_open) (user_query_open @ rest)" by simp
    also have "\<dots> = drop (length user_query_open) ((us @ user_query_open) @ r0)"
      by (simp only: e)
    also have "\<dots> = drop (length user_query_open) (us @ user_query_open) @ r0"
      by simp
    finally have "rest = drop (length user_query_open) (us @ user_query_open) @ r0" .
    then show ?thesis using contains_suffix[OF c0] by metis
  next
    case False
    then have b: "p0 @ us = pre" "user_query_open @ r0 = us @ (user_query_open @ rest)"
      using us by blast+
    have "\<not> contains us user_query_open"
    proof
      assume "contains us user_query_open"
      then have "contains (p0 @ us) user_query_open" by (rule contains_suffix)
      then show False using np b(1) by simp
    qed
    moreover have "startswith (us @ user_query_open @ rest) user_query_open"
      using startswith_append_self[of user_query_open r0] b(2) by simp
    ultimately have "us = []" using no_straddle[OF open_tag, of us rest] by blast
    then have "rest = r0" using b(2) by simp
    then show ?thesis using c0 by simp
  qed
  then obtain body post where "rest = body @ user_query_close @ post"
    and "\<not> contains body user_query_close"
    using first_occurrence[OF cne] by blast
  then show ?thesis using t1 np by blast
qed

lemma tagged_facts:
  "tagged_text = ''<user_info>OS: macOS</user_info>'' @ user_query_open @
                 ''  Fix the login bug in auth.py '' @ user_query_close @ []"
  "\<not> contains ''<user_info>OS: macOS</user_info>'' user_query_open"
  "\<not> contains ''  Fix the login bug in auth.py '' user_query_close"
  "str_strip ''  Fix the login bug in auth.py '' = ''Fix the login bug in auth.py''"
  "10 \<le> length (str_strip tagged_text)"
  "\<not> (length (str_strip ''Fix the login bug in auth.py'') < 10 \<or>
      is_mostly_metadata ''Fix the login bug in auth.py'')"
  by code_simp+

lemma reminder_facts:
  "search_user_query reminder_text = None"
  "\<not> (\<exists>tag \<in> set metadata_tags. startswith (str_strip reminder_text) tag)"
  "contains reminder_text reminder_open"
  "reminder_text = ''Context: <system_reminder>Be brief.'' @ reminder_close @
                   '' Please rename the helper module''"
  "\<not> contains '' Please rename the helper module'' reminder_close"
  "str_strip '' Please rename the helper module'' = ''Please rename the helper module''"
  by code_simp+

text \<open>
  Claim C5, amended. For a user-role payload whose text survives the primary filters, the
  content passed on is the result \<open>q\<close> of the secondary extraction, dropped when \<open>q\<close>
  is shorter than 10 characters after trimming (or is rejected by the later boilerplate
  filter), and cut to 2000 characters. When the text holds a user-query span, \<open>q\<close> is the
  trimmed text between the first opening tag and the next closing tag. When it holds none
  and its trimmed text begins with a metadata-wrapper tag, \<open>q\<close> is empty and the message
  is dropped. Otherwise, when the text holds the opening system-reminder tag and a closing
  one, \<open>q\<close> is the trimmed text after the last closing tag; and when the opening or the
  closing system-reminder tag is absent, \<open>q\<close> is the whole text.
\<close>

theorem extract_user_query_cases:
  "(dict_get kvs ''role'' JNull = JStr ''user'' \<and>
    extract_text_content (dict_get kvs ''content'' JNull) = Inr text \<and>
    10 \<le> length (str_strip text) \<longrightarrow>
      extract_message (JObj kvs) =
        Inr (if length (str_strip (extract_user_query text)) < 10 \<or>
                is_mostly_metadata (extract_user_query text)
             then None
             else Some \<lparr>role = JStr ''user'', content = take 2000 (extract_user_query text)\<rparr>)) \<and>
   (text = pre @ user_query_open @ body @ user_query_close @ post \<and>
    \<not> contains pre user_query_open \<and> \<not> contains body user_query_close \<longrightarrow>
      extract_user_query text = str_strip body) \<and>
   (user_query_span text \<longrightarrow>
      (\<exists>p b q. text = p @ user_query_open @ b @ user_query_close @ q \<and>
         \<not> contains p user_query_open \<and> \<not> contains b user_query_close)) \<and>
   (\<not> user_query_span text \<and> (\<exists>tag \<in> set metadata_tags. startswith (str_strip text) tag) \<longrightarrow>
      extract_user_query text = []) \<and>
   (\<not> user_query_span text \<and> \<not> (\<exists>tag \<in> set metadata_tags. startswith (str_strip text) tag) \<and>
    contains text reminder_open \<and>
    text = before @ reminder_close @ rest \<and> \<not> contains rest reminder_close \<longrightarrow>
      extract_user_query text = str_strip rest) \<and>
   (\<not> user_query_span text \<and> \<not> (\<exists>tag \<in> set metadata_tags. startswith (str_strip text) tag) \<and>
    \<not> (contains text reminder_open \<and> contains text reminder_close) \<longrightarrow>
      extract_user_query text = text)"
proof (intro conjI impI)
  assume "dict_get kvs ''role'' JNull = JStr ''user'' \<and>
    extract_text_content (dict_get kvs ''content'' JNull) = Inr text \<and>
    10 \<le> length (str_strip text)"
  then show "extract_message (JObj kvs) =
        Inr (if length (str_strip (extract_user_query text)) < 10 \<or>
                is_mostly_metadata (extract_user_query text)
             then None
             else Some \<lparr>role = JStr ''user'', content = take 2000 (extract_user_query text)\<rparr>)"
    using extract_message_user by blast
next
  assume "text = pre @ user_query_open @ body @ user_query_close @ post \<and>
    \<not> contains pre user_query_open \<and> \<not> contains body user_query_close"
  then show "extract_user_query text = str_strip body"
    using extract_user_query_span by blast
next
  assume "user_query_span text"
  then show "\<exists>p b q. text = p @ user_query_open @ b @ user_query_close @ q \<and>
         \<not> contains p user_query_open \<and> \<not> contains b user_query_close"
    by (rule canonical_span)
next
  assume "\<not> user_query_span text \<and> (\<exists>tag \<in> set metadata_tags. startswith (str_strip text) tag)"
  then show "extract_user_query text = []"
    using extract_user_query_no_span[of "text"] by (simp add: list_ex_iff)
next
  assume a: "\<not> user_query_span text \<and> \<not> (\<exists>tag \<in> set metadata_tags. startswith (str_strip text) tag) \<and>
    contains text reminder_open \<and>
    text = before @ reminder_close @ rest \<and> \<not> contains rest reminder_close"
  then have ns: "\<not> user_query_span text"
    and nt: "\<not> (\<exists>tag \<in> set metadata_tags. startswith (str_strip text) tag)"
    and co: "contains text reminder_open"
    and eq: "text = before @ reminder_close @ rest"
    and nr: "\<not> contains rest reminder_close"
    by blast+
  have sl: "last (str_split_str reminder_close text) = rest \<and>
            1 < length (str_split_str reminder_close text)"
    unfolding eq by (rule split_last[OF reminder_tag nr])
  show "extract_user_query text = str_strip rest"
    using extract_user_query_no_span[OF ns] nt co sl by (simp add: list_ex_iff Let_def)
next
  assume a: "\<not> user_query_span text \<and> \<not> (\<exists>tag \<in> set metadata_tags. startswith (str_strip text) tag) \<and>
    \<not> (contains text reminder_open \<and> contains text reminder_close)"
  have "str_split_str reminder_close text = [text]"
    if "\<not> contains text reminder_close"
    using that by (intro split_none) (simp_all add: reminder_close_def)
  then show "extract_user_query text = text"
    using a extract_user_query_no_span[of "text"] by (auto simp: list_ex_iff Let_def)
qed


theorem extract_user_query_cases_witness:
  "extract_user_query tagged_text = ''Fix the login bug in auth.py'' \<and>
   extract_message (user_blob tagged_text) =
     Inr (Some \<lparr>role = JStr ''user'', content = ''Fix the login bug in auth.py''\<rparr>) \<and>
   extract_user_query reminder_text = ''Please rename the helper module''"
proof -
  have k: "dict_get [(''role'', JStr ''user''), (''content'', JStr tagged_text)] ''role'' JNull = JStr ''user''"
    "extract_text_content (dict_get [(''role'', JStr ''user''), (''content'', JStr tagged_text)] ''content'' JNull) = Inr tagged_text"
    by (simp_all add: dict_get_def extract_text_content_def)
  have ns: "\<not> user_query_span reminder_text"
    using reminder_facts(1) span_iff_search by blast
  have a: "extract_user_query tagged_text = ''Fix the login bug in auth.py''"
    using extract_user_query_cases[of "[(''role'', JStr ''user''), (''content'', JStr tagged_text)]" tagged_text
            "''<user_info>OS: macOS</user_info>''" "''  Fix the login bug in auth.py ''" "[]"]
      tagged_facts(1,2,3,4)
    by simp
  have b: "extract_message (user_blob tagged_text) =
     Inr (Some \<lparr>role = JStr ''user'', content = ''Fix the login bug in auth.py''\<rparr>)"
    using extract_user_query_cases[of "[(''role'', JStr ''user''), (''content'', JStr tagged_text)]" tagged_text]
      k tagged_facts(5,6) a
    by (simp add: user_blob_def)
  have c: "extract_user_query reminder_text = ''Please rename the helper module''"
    using extract_user_query_cases[of _ reminder_text _ _ _ "''Context: <system_reminder>Be brief.''"
            "'' Please rename the helper module''"]
      ns reminder_facts(2,3,4,5,6)
    by simp
  show ?thesis using a b c by blast
qed

text \<open>
  A user text with a closing system-reminder tag and no opening one is kept whole: nothing
  is stripped.
\<close>

theorem extract_user_query_cases_counterexample:
  "contains closing_only_text reminder_close \<and>
   extract_user_query closing_only_text = closing_only_text \<and>
   extract_message (user_blob closing_only_text) =
     Inr (Some \<lparr>role = JStr ''user'', content = closing_only_text\<rparr>)"
  by code_simp

section \<open>Proofs: IncrementalUpdater\<close>

subsection \<open>The part of \<open>main\<close> that follows the reading of the blobs\<close>

lemma filter_new_blob_ids:
  "filter (\<lambda>(bid, bdata). bid \<in> set (map fst blobs) - set covered) blobs = delta_blobs covered blobs"
  unfolding delta_blobs_def by (rule filter_cong) force+


text \<open>A stored record that covers every current blob id ends the run at once.\<close>

lemma main_update_covered:
  assumes "db conversation_id = Some row"
    and "set (map fst blobs) \<subseteq> set (blob_ids row)"
  shows "main_update cursor cfg db now conversation_id name directory blobs =
           \<lparr>db_after = db, completion_calls = [], raised = None\<rparr>"
proof -
  have "set (map fst blobs) - set (blob_ids row) = {}" using assms(2) by blast
  then show ?thesis
    using assms(1) by (simp add: main_update_def get_summary_state_def Let_def del: set_map)
qed

text \<open>A run on a conversation with a stored record and new blob ids works on the delta.\<close>

lemma main_update_delta:
  assumes "db conversation_id = Some row"
    and "\<not> set (map fst blobs) \<subseteq> set (blob_ids row)"
  shows "main_update cursor cfg db now conversation_id name directory blobs =
     (case extract_messages (delta_blobs (blob_ids row) blobs) of
        Inl e \<Rightarrow> \<lparr>db_after = db, completion_calls = [], raised = Some e\<rparr>
      | Inr messages \<Rightarrow>
          if messages = [] then \<lparr>db_after = db, completion_calls = [], raised = None\<rparr>
          else if \<not> has_meaningful_messages messages
            then \<lparr>db_after = db, completion_calls = [], raised = None\<rparr>
          else
            (case generate_summary cursor messages (summary_model cfg)
                    (summary_max_words cfg) (Some (summary_text row)) of
               (summary, calls) \<Rightarrow>
                 if \<not> is_summary_actionable summary
                 then \<lparr>db_after = db, completion_calls = calls, raised = None\<rparr>
                 else
                   (case upsert_summary db now conversation_id (the summary)
                           (map fst blobs) name directory of
                      Inl e \<Rightarrow> \<lparr>db_after = db, completion_calls = calls, raised = Some e\<rparr>
                    | Inr db' \<Rightarrow> \<lparr>db_after = db', completion_calls = calls, raised = None\<rparr>)))"
proof -
  have new: "set (map fst blobs) - set (blob_ids row) \<noteq> {}" using assms(2) by auto
  show ?thesis
    using new assms(1) filter_new_blob_ids[of blobs "blob_ids row"]
    by (simp add: main_update_def get_summary_state_def Let_def del: set_map)
qed

subsection \<open>The whole of \<open>main\<close>\<close>


text \<open>
  Line 96 ends the run of a chat named \<open>New Agent\<close> that was created at or after the
  cut-off, whatever the summary table and the store hold.
\<close>

lemma main_skips_new_agent:
  assumes "skip_hooks_env w \<noteq> Some ''1''"
    and "hooks_enabled cfg"
    and "str_strip (raw_input w) \<noteq> []"
    and "json_loads (raw_input w) = Some (JObj kvs)"
    and "dict_get kvs ''conversation_id'' JNull = JStr conversation_id"
    and "conversation_id \<noteq> []"
    and "first_root (dict_get kvs ''workspace_roots'' (JArr [])) = Inr directory"
    and "find_chat_db_path (chats_dir w) (JStr conversation_id) = Inr (Some store)"
    and "meta_get (store_meta store) ''name'' (JStr ''Unnamed'') = Inr (JStr ''New Agent'')"
    and "meta_get (store_meta store) ''createdAt'' (JNum 0) = Inr (JNum created)"
    and "JAN_2026_MS \<le> created"
  shows "main cursor json_loads cfg db w =
           \<lparr>db_after = db, completion_calls = [], raised = None\<rparr>"
  using assms by (simp add: main_def Let_def new_agent_chat_def)

text \<open>
  Whatever ends a run, no completion call and no write has been made when the stored
  record of the conversation covers the blob ids of its store.
\<close>

lemma main_covered:
  assumes "json_loads (raw_input w) = Some (JObj kvs)"
    and "dict_get kvs ''conversation_id'' JNull = JStr conversation_id"
    and "find_chat_db_path (chats_dir w) (JStr conversation_id) = Inr (Some store)"
    and "db conversation_id = Some row"
    and "set (map fst (store_blobs store)) \<subseteq> set (blob_ids row)"
  shows "db_after (main cursor json_loads cfg db w) = db \<and>
         completion_calls (main cursor json_loads cfg db w) = []"
proof -
  have u: "\<And>name directory.
      main_update cursor cfg db (clock_ms w) conversation_id name directory (store_blobs store) =
        \<lparr>db_after = db, completion_calls = [], raised = None\<rparr>"
    using assms(4,5) by (rule main_update_covered)
  show ?thesis
    using assms(1,2,3)
    by (simp add: main_def Let_def u split: sum.splits bool.splits)
qed



subsection \<open>The example run\<close>

lemma example_input_not_blank: "str_strip (json_dumps hook_payload) \<noteq> []"
  by code_simp

lemma example_loads_input:
  "example_loads (raw_input (example_world meta blobs)) = Some (JObj hook_items)"
  by (simp add: example_loads_def example_world_def hook_payload_def)

lemma example_conversation: "dict_get hook_items ''conversation_id'' JNull = JStr ''conv-1''"
  by (simp add: dict_get_def hook_items_def)

lemma example_root:
  "first_root (dict_get hook_items ''workspace_roots'' (JArr [])) =
     Inr (JStr ''/Users/jane/dev/my-app'')"
  by (simp add: first_root_def dict_get_def hook_items_def)

lemma example_store:
  "find_chat_db_path (chats_dir (example_world meta blobs)) (JStr ''conv-1'') =
     Inr (Some \<lparr>store_meta = meta, store_blobs = blobs\<rparr>)"
  by (simp add: find_chat_db_path_def example_world_def)

text \<open>A run in the example surroundings reaches the name check of line 96.\<close>

lemma example_world_main:
  "main cursor example_loads default_config db (example_world meta blobs) =
     (case meta_get meta ''name'' (JStr ''Unnamed'') of
        Inl e \<Rightarrow> \<lparr>db_after = db, completion_calls = [], raised = Some e\<rparr>
      | Inr name \<Rightarrow>
          (case meta_get meta ''createdAt'' (JNum 0) of
             Inl e \<Rightarrow> \<lparr>db_after = db, completion_calls = [], raised = Some e\<rparr>
           | Inr created \<Rightarrow>
               (case new_agent_chat name created of
                  Inl e \<Rightarrow> \<lparr>db_after = db, completion_calls = [], raised = Some e\<rparr>
                | Inr True \<Rightarrow> \<lparr>db_after = db, completion_calls = [], raised = None\<rparr>
                | Inr False \<Rightarrow>
                    main_update cursor default_config db 200 ''conv-1'' name
                      (JStr ''/Users/jane/dev/my-app'') blobs)))"
proof -
  have skip: "skip_hooks_env (example_world meta blobs) = None"
    and clock: "clock_ms (example_world meta blobs) = 200"
    by (simp_all add: example_world_def)
  have enabled: "hooks_enabled default_config" by (simp add: default_config_def)
  have input: "str_strip (raw_input (example_world meta blobs)) \<noteq> []"
    using example_input_not_blank by (simp add: example_world_def)
  show ?thesis
    unfolding main_def Let_def
    by (simp add: skip clock enabled input example_loads_input example_conversation
          example_root example_store split: sum.splits bool.splits)
qed

lemma login_meta_name: "meta_get login_meta ''name'' (JStr ''Unnamed'') = Inr (JStr ''Login fix'')"
  by (simp add: meta_get_def login_meta_def dict_get_def)

lemma login_meta_created:
  "meta_get login_meta ''createdAt'' (JNum 0) = Inr (JNum 1767300000000)"
  by (simp add: meta_get_def login_meta_def dict_get_def)

lemma login_meta_guard: "new_agent_chat (JStr ''Login fix'') (JNum 1767300000000) = Inr False"
  by (simp add: new_agent_chat_def)


lemma message_c_meaningful: "has_meaningful_messages [message_c]"
  by code_simp

lemma fixed_cursor_summary:
  "fst (generate_summary fixed_cursor [message_c] ''grok'' 70 (Some login_summary)) =
     Some updated_summary"
  by (simp add: generate_summary_def Let_def run_agent_def fixed_cursor_def) code_simp

lemma updated_summary_actionable: "is_summary_actionable (Some updated_summary)"
  by code_simp


lemma only_c_delta:
  "extract_messages (delta_blobs [''A'', ''B''] [(''C'', blob_c)]) = Inr [message_c]"
  by code_simp







text \<open>The runs of the example: on the delta \<open>C\<close>, and on a delta that is a system blob.\<close>

lemma example_update_run:
  assumes "\<not> set (map fst blobs) \<subseteq> set [''A'', ''B'']"
    and "extract_messages (delta_blobs [''A'', ''B''] blobs) = Inr [message_c]"
  shows "main_update fixed_cursor default_config login_db 200 ''conv-1'' name directory blobs =
     (case upsert_summary login_db 200 ''conv-1'' updated_summary (map fst blobs) name directory of
        Inl e \<Rightarrow>
          \<lparr>db_after = login_db,
           completion_calls = [(build_summary_prompt [message_c] 70 (Some login_summary), ''grok'')],
           raised = Some e\<rparr>
      | Inr db' \<Rightarrow>
          \<lparr>db_after = db',
           completion_calls = [(build_summary_prompt [message_c] 70 (Some login_summary), ''grok'')],
           raised = None\<rparr>)"
proof -
  have row: "login_db ''conv-1'' = Some login_row" by (simp add: login_db_def)
  have new: "\<not> set (map fst blobs) \<subseteq> set (blob_ids login_row)"
    using assms(1) by (simp add: login_row_def)
  have delta: "extract_messages (delta_blobs (blob_ids login_row) blobs) = Inr [message_c]"
    using assms(2) by (simp add: login_row_def)
  have prior: "summary_text login_row = login_summary" by (simp add: login_row_def)
  have cfg: "summary_model default_config = ''grok''" "summary_max_words default_config = 70"
    by (simp_all add: default_config_def)
  obtain summary calls where
    gs: "generate_summary fixed_cursor [message_c] ''grok'' 70 (Some login_summary) =
           (summary, calls)"
    by (cases "generate_summary fixed_cursor [message_c] ''grok'' 70 (Some login_summary)")
  have summary: "summary = Some updated_summary"
    using fixed_cursor_summary gs by simp
  have calls: "calls = [(build_summary_prompt [message_c] 70 (Some login_summary), ''grok'')]"
    using gs by (simp add: generate_summary_def Let_def)
  show ?thesis
    unfolding main_update_delta[where db = login_db and conversation_id = "''conv-1''"
                and row = login_row, OF row new] delta prior cfg
    using message_c_meaningful updated_summary_actionable
    by (simp add: gs summary calls)
qed

subsection \<open>No new blob ids\<close>

text \<open>
  Claim C2. When the stored record of a conversation covers every current blob id, the
  part of \<open>main\<close> that follows the reading of the blobs makes no completion call,
  writes nothing and raises nothing: the summary table is the one it started with. So a
  whole run of \<open>main\<close> on a payload that names the conversation, with a store that holds
  those blobs, makes no completion call and leaves the summary table as it was.
\<close>

theorem main_unchanged_noop:
  assumes "db conversation_id = Some row"
    and "set (map fst blobs) \<subseteq> set (blob_ids row)"
  shows "main_update cursor cfg db now conversation_id name directory blobs =
           \<lparr>db_after = db, completion_calls = [], raised = None\<rparr> \<and>
         (json_loads (raw_input w) = Some (JObj kvs) \<and>
          dict_get kvs ''conversation_id'' JNull = JStr conversation_id \<and>
          find_chat_db_path (chats_dir w) (JStr conversation_id) = Inr (Some store) \<and>
          store_blobs store = blobs \<longrightarrow>
            db_after (main cursor json_loads cfg db w) = db \<and>
            completion_calls (main cursor json_loads cfg db w) = [])"
proof (intro conjI impI)
  show "main_update cursor cfg db now conversation_id name directory blobs =
          \<lparr>db_after = db, completion_calls = [], raised = None\<rparr>"
    using assms by (rule main_update_covered)
next
  assume w: "json_loads (raw_input w) = Some (JObj kvs) \<and>
          dict_get kvs ''conversation_id'' JNull = JStr conversation_id \<and>
          find_chat_db_path (chats_dir w) (JStr conversation_id) = Inr (Some store) \<and>
          store_blobs store = blobs"
  then have c: "set (map fst (store_blobs store)) \<subseteq> set (blob_ids row)"
    using assms(2) by simp
  from w have w1: "json_loads (raw_input w) = Some (JObj kvs)"
    and w2: "dict_get kvs ''conversation_id'' JNull = JStr conversation_id"
    and w3: "find_chat_db_path (chats_dir w) (JStr conversation_id) = Inr (Some store)"
    by simp_all
  have "db_after (main cursor json_loads cfg db w) = db \<and>
        completion_calls (main cursor json_loads cfg db w) = []"
    using w1 w2 w3 assms(1) c by (rule main_covered)
  then show "db_after (main cursor json_loads cfg db w) = db"
    and "completion_calls (main cursor json_loads cfg db w) = []"
    by simp_all
qed

theorem main_unchanged_noop_witness:
  "main_update fixed_cursor default_config login_db 200 ''conv-1'' (JStr ''Login fix'')
     (JStr ''/Users/jane/dev/my-app'') [(''A'', blob_a), (''B'', blob_b)] =
     \<lparr>db_after = login_db, completion_calls = [], raised = None\<rparr> \<and>
   db_after (main fixed_cursor example_loads default_config login_db
               (example_world login_meta [(''A'', blob_a), (''B'', blob_b)])) = login_db \<and>
   completion_calls (main fixed_cursor example_loads default_config login_db
               (example_world login_meta [(''A'', blob_a), (''B'', blob_b)])) = []"
  using main_unchanged_noop[of login_db "''conv-1''" login_row
          "[(''A'', blob_a), (''B'', blob_b)]" fixed_cursor default_config 200
          "JStr ''Login fix''" "JStr ''/Users/jane/dev/my-app''" example_loads
          "example_world login_meta [(''A'', blob_a), (''B'', blob_b)]" hook_items
          "\<lparr>store_meta = login_meta, store_blobs = [(''A'', blob_a), (''B'', blob_b)]\<rparr>"]
    example_loads_input[of login_meta "[(''A'', blob_a), (''B'', blob_b)]"]
    example_conversation
    example_store[of login_meta "[(''A'', blob_a), (''B'', blob_b)]"]
  by (simp add: login_db_def login_row_def)

subsection \<open>New blob ids\<close>




text \<open>
  The coverage written is the id list of the store. Were the store to lose the blobs
  \<open>A\<close> and \<open>B\<close> that the record covers, the record written would cover \<open>C\<close> alone.
\<close>

lemma coverage_follows_store:
  "db_after (main fixed_cursor example_loads default_config login_db
               (example_world login_meta [(''C'', blob_c)])) =
     login_db(''conv-1'' \<mapsto>
        \<lparr>summary_text = updated_summary, blob_ids = [''C''],
         created_at = 100, updated_at = 200, chat_name = Some ''Login fix'',
         chat_directory = Some ''/Users/jane/dev/my-app''\<rparr>)"
proof -
  have new: "\<not> set (map fst [(''C'', blob_c)]) \<subseteq> set [''A'', ''B'']" by simp
  show ?thesis
    using example_update_run[OF new only_c_delta, of "JStr ''Login fix''"
            "JStr ''/Users/jane/dev/my-app''"]
    by (simp add: example_world_main login_meta_name login_meta_created login_meta_guard
          upsert_summary_def login_db_def login_row_def)
qed

end
